theory Spec2Isabelle
  imports Main
begin

section \<open>The collaborators of ReplicasConnections\<close>

text \<open>
  \<^verbatim>\<open>dbms/src/Client/ReplicasConnections.cpp\<close> multiplexes one query over several replica
  connections. The coordinator talks to three collaborators that are not part of the
  file: \<^verbatim>\<open>Connection\<close> objects (reached through \<^verbatim>\<open>Connection *\<close>), the pool that
  hands them out, and \<^verbatim>\<open>Poco::Net::Socket::select\<close>. They are modelled by a
  \<open>world\<close>: what every connection will deliver, what every poll will report, and the
  calls the coordinator has issued so far.
\<close>

type_synonym sockfd = int
type_synonym conn = nat
type_synonym ExternalTablesData = nat

text \<open>
  \<^verbatim>\<open>Protocol::Server\<close>: the seven packet types the switch statements name; every other
  value of the type field is \<open>Other\<close>.
\<close>

datatype packet_type =
  Data | Progress | ProfileInfo | Totals | Extremes | EndOfStream | Exception | Other nat

record packet =
  ptype :: packet_type
  payload :: nat

datatype error =
  UNEXPECTED_REPLICA | NO_AVAILABLE_REPLICA | MISMATCH_REPLICAS_DATA_SOURCES | NETWORK_ERROR

text \<open>The calls a \<^verbatim>\<open>Connection\<close> receives that send something to its server.\<close>

datatype call =
  SendQuery conn string string nat nat bool
| SendCancel conn
| Disconnect conn
| SendExternalTablesData conn ExternalTablesData

text \<open>
  Modelled from the spec: \<^verbatim>\<open>Connection\<close> is a class of the repository whose source is
  missing; the spec gives its interface only. \<open>sockfd_of c\<close> is
  \<^verbatim>\<open>c->socket.impl()->sockfd()\<close>, \<open>server_address c\<close> is \<^verbatim>\<open>c->getServerAddress()\<close>,
  \<open>incoming c\<close> the packets connection \<open>c\<close> has still to deliver, \<open>calls\<close> the log of
  the sending calls issued, which are taken to succeed. \<open>polls\<close> are the sets of
  readable sockets that the coming calls of \<^verbatim>\<open>select\<close> will see.
\<close>

record world =
  sockfd_of :: "conn \<Rightarrow> sockfd"
  server_address :: "conn \<Rightarrow> string"
  incoming :: "conn \<Rightarrow> packet list"
  polls :: "sockfd list list"
  calls :: "call list"

section \<open>Data model\<close>

text \<open>
  \<^verbatim>\<open>struct Replica\<close>. The header that fixes the widths of the counters is missing and
  the spec calls them integers: they are mathematical integers here, and the
  wrap-around of a machine integer is outside this model.
\<close>

record replica =
  connection :: conn
  is_valid :: bool
  can_read :: bool
  next_packet_number :: int

text \<open>
  The coordinator's members together with the world it acts on. \<open>replica_hash\<close> is the
  \<^verbatim>\<open>unordered_map\<close> from socket descriptor to \<^verbatim>\<open>Replica\<close>, as the list of its
  entries in iteration order.
\<close>

record system = world +
  replica_hash :: "(sockfd \<times> replica) list"
  valid_replicas_count :: int
  next_packet_number :: int

text \<open>
  Modelled from the spec: the constructor \<^verbatim>\<open>Replica(connection)\<close> is declared in the
  header, which is missing. The spec has a replica valid until it emits a terminal or
  malformed packet and its counter start at 0; \<open>can_read\<close> is recomputed by every poll
  before it is read.
\<close>

definition Replica :: "conn \<Rightarrow> replica" where
  "Replica c = \<lparr>connection = c, is_valid = True, can_read = False,
                 replica.next_packet_number = 0\<rparr>"

text \<open>
  Modelled from the spec: the member initialiser of the coordinator's
  \<^verbatim>\<open>next_packet_number\<close> is in the missing header as well; the spec has the cursor
  start at 0.
\<close>

definition initial_next_packet_number :: int where
  "initial_next_packet_number = 0"

text \<open>
  \<^verbatim>\<open>unordered_map::insert\<close>: an entry whose key is present already is not inserted.
  The table is the list of its entries in the order in which the loops of the code visit
  them. C++ leaves the iteration order of an \<^verbatim>\<open>unordered_map\<close> unspecified; the table
  built here lists the entries in the order of insertion. The theorems on arbitrary states
  below hold for every order of the list.
\<close>

definition insert_replica :: "sockfd \<times> replica \<Rightarrow> (sockfd \<times> replica) list \<Rightarrow> (sockfd \<times> replica) list" where
  "insert_replica e h = (case map_of h (fst e) of None \<Rightarrow> h @ [e] | Some _ \<Rightarrow> h)"

text \<open>
  The constructor. \<open>entries\<close> is what \<^verbatim>\<open>pool_->getMany(settings)\<close> returned, \<open>w\<close> the
  world the coordinator is created in.
\<close>

definition ReplicasConnections :: "conn list \<Rightarrow> world \<Rightarrow> system" where
  "ReplicasConnections entries w =
     \<lparr>sockfd_of = sockfd_of w, server_address = server_address w, incoming = incoming w,
      polls = polls w, calls = calls w,
      replica_hash =
        fold (\<lambda>c h. insert_replica (sockfd_of w c, Replica c) h) entries [],
      valid_replicas_count = int (length entries),
      system.next_packet_number = initial_next_packet_number\<rparr>"

text \<open>
  A \<^verbatim>\<open>Replica &\<close> into the table is the key of its entry. \<open>modify_replica k f\<close> assigns
  through such a reference.
\<close>

definition modify_replica :: "sockfd \<Rightarrow> (replica \<Rightarrow> replica) \<Rightarrow> system \<Rightarrow> system" where
  "modify_replica k f s =
     s\<lparr>replica_hash := map (\<lambda>(k', r). if k' = k then (k', f r) else (k', r)) (replica_hash s)\<rparr>"

section \<open>waitForReadEvent and pickConnection\<close>

text \<open>
  \<^verbatim>\<open>Poco::Net::Socket::select\<close> with empty write and except lists: it leaves in
  \<open>read_list\<close> the sockets that are readable, and times out with none when the world
  has no poll left.
\<close>

definition select :: "sockfd list \<Rightarrow> system \<Rightarrow> sockfd list \<times> system" where
  "select read_list s =
     (case polls s of
        [] \<Rightarrow> ([], s)
      | ready # rest \<Rightarrow> (filter (\<lambda>fd. fd \<in> set ready) read_list, s\<lparr>polls := rest\<rparr>))"

fun mark_can_read :: "sockfd list \<Rightarrow> system \<Rightarrow> (error + unit) \<times> system" where
  "mark_can_read [] s = (Inr (), s)"
| "mark_can_read (fd # read_list) s =
     (case map_of (replica_hash s) fd of
        None \<Rightarrow> (Inl UNEXPECTED_REPLICA, s)
      | Some _ \<Rightarrow> mark_can_read read_list (modify_replica fd (\<lambda>r. r\<lparr>can_read := True\<rparr>) s))"

definition waitForReadEvent :: "system \<Rightarrow> (error + int) \<times> system" where
  "waitForReadEvent s =
     (if valid_replicas_count s = 0 then (Inr 0, s)
      else
        let read_list = map (\<lambda>(k, r). sockfd_of s (connection r))
                          (filter (\<lambda>(k, r). is_valid r) (replica_hash s));
            s1 = s\<lparr>replica_hash := map (\<lambda>(k, r). (k, r\<lparr>can_read := False\<rparr>)) (replica_hash s)\<rparr>;
            (ready, s2) = select read_list s1
        in case mark_can_read ready s2 of
             (Inl e, s3) \<Rightarrow> (Inl e, s3)
           | (Inr _, s3) \<Rightarrow> (Inr (int (length ready)), s3))"

text \<open>The selection loop: \<open>m\<close> is \<^verbatim>\<open>max_packet_number\<close>, \<open>res\<close> the replica found so far.\<close>

fun pick_loop :: "(sockfd \<times> replica) list \<Rightarrow> int \<Rightarrow> sockfd option \<Rightarrow> sockfd option" where
  "pick_loop [] m res = res"
| "pick_loop ((k, r) # h) m res =
     (if can_read r \<and> replica.next_packet_number r > m
      then pick_loop h (replica.next_packet_number r) (Some k)
      else pick_loop h m res)"

definition pickConnection :: "system \<Rightarrow> (error + sockfd) \<times> system" where
  "pickConnection s =
     (case waitForReadEvent s of
        (Inl e, s1) \<Rightarrow> (Inl e, s1)
      | (Inr n, s1) \<Rightarrow>
          (case (if n > 0 then pick_loop (replica_hash s1) (- 1) None else None) of
             None \<Rightarrow> (Inl NO_AVAILABLE_REPLICA, s1)
           | Some k \<Rightarrow> (Inr k, s1)))"

section \<open>Broadcasts\<close>

definition sendQuery :: "string \<Rightarrow> string \<Rightarrow> nat \<Rightarrow> nat \<Rightarrow> bool \<Rightarrow> system \<Rightarrow> system" where
  "sendQuery query query_id stage settings' with_pending_data s =
     s\<lparr>calls := calls s @
          map (\<lambda>(k, r). SendQuery (connection r) query query_id stage settings' with_pending_data)
            (replica_hash s)\<rparr>"

definition disconnect :: "system \<Rightarrow> system" where
  "disconnect s =
     s\<lparr>calls := calls s @
          map (\<lambda>(k, r). Disconnect (connection r))
            (filter (\<lambda>(k, r). is_valid r) (replica_hash s))\<rparr>"

definition sendCancel :: "system \<Rightarrow> system" where
  "sendCancel s =
     s\<lparr>calls := calls s @
          map (\<lambda>(k, r). SendCancel (connection r))
            (filter (\<lambda>(k, r). is_valid r) (replica_hash s))\<rparr>"

fun send_data_loop :: "(sockfd \<times> replica) list \<Rightarrow> ExternalTablesData list \<Rightarrow> call list" where
  "send_data_loop ((k, r) # h) (d # it) = SendExternalTablesData (connection r) d # send_data_loop h it"
| "send_data_loop _ _ = []"

definition sendExternalTablesData :: "ExternalTablesData list \<Rightarrow> system \<Rightarrow> (error + unit) \<times> system" where
  "sendExternalTablesData data s =
     (if length data \<noteq> length (replica_hash s) then (Inl MISMATCH_REPLICAS_DATA_SOURCES, s)
      else (Inr (), s\<lparr>calls := calls s @ send_data_loop (replica_hash s) data\<rparr>))"

section \<open>Receiving\<close>

text \<open>
  Modelled from the spec: \<^verbatim>\<open>Connection::receivePacket\<close> returns the next packet of the
  connection and may block. A world is a finite script, so a connection with no packet
  left stands for a read that blocks until the socket times out, and raises.
\<close>

definition connection_receivePacket :: "conn \<Rightarrow> system \<Rightarrow> (error + packet) \<times> system" where
  "connection_receivePacket c s =
     (case incoming s c of
        [] \<Rightarrow> (Inl NETWORK_ERROR, s)
      | p # ps \<Rightarrow> (Inr p, s\<lparr>incoming := (incoming s)(c := ps)\<rparr>))"

text \<open>
  The \<^verbatim>\<open>while (again)\<close> loop of \<^verbatim>\<open>drainResidualPackets\<close> for one connection;
  the result is \<^verbatim>\<open>caught_exceptions\<close>.
\<close>

function drain_connection :: "conn \<Rightarrow> bool \<Rightarrow> system \<Rightarrow> (error + bool) \<times> system" where
  "drain_connection c caught_exceptions s =
     (case connection_receivePacket c s of
        (Inl e, s1) \<Rightarrow> (Inl e, s1)
      | (Inr p, s1) \<Rightarrow>
          (case ptype p of
             Data \<Rightarrow> drain_connection c caught_exceptions s1
           | Progress \<Rightarrow> drain_connection c caught_exceptions s1
           | ProfileInfo \<Rightarrow> drain_connection c caught_exceptions s1
           | Totals \<Rightarrow> drain_connection c caught_exceptions s1
           | Extremes \<Rightarrow> drain_connection c caught_exceptions s1
           | EndOfStream \<Rightarrow> (Inr caught_exceptions, s1)
           | Exception \<Rightarrow> (Inr True, s1)
           | Other _ \<Rightarrow> (Inr True, s1)))"
  by pat_completeness auto
termination
  by (relation "measure (\<lambda>(c, caught, s). length (incoming s c))")
     (auto simp: connection_receivePacket_def split: list.splits)

fun drain_loop :: "(sockfd \<times> replica) list \<Rightarrow> bool \<Rightarrow> system \<Rightarrow> (error + bool) \<times> system" where
  "drain_loop [] caught_exceptions s = (Inr caught_exceptions, s)"
| "drain_loop ((k, r) # h) caught_exceptions s =
     (if is_valid r
      then (case drain_connection (connection r) caught_exceptions s of
              (Inl e, s1) \<Rightarrow> (Inl e, s1)
            | (Inr caught, s1) \<Rightarrow> drain_loop h caught s1)
      else drain_loop h caught_exceptions s)"

definition drainResidualPackets :: "system \<Rightarrow> (error + unit) \<times> system" where
  "drainResidualPackets s =
     (case drain_loop (replica_hash s) False s of
        (Inl e, s1) \<Rightarrow> (Inl e, s1)
      | (Inr caught_exceptions, s1) \<Rightarrow> (Inr (), s1))"

text \<open>\<^verbatim>\<open>replica.is_valid = false; --valid_replicas_count;\<close>\<close>

definition invalidate :: "sockfd \<Rightarrow> system \<Rightarrow> system" where
  "invalidate k s =
     (modify_replica k (\<lambda>r. r\<lparr>is_valid := False\<rparr>) s)
       \<lparr>valid_replicas_count := valid_replicas_count s - 1\<rparr>"

text \<open>
  The \<^verbatim>\<open>switch (packet.type)\<close> of \<^verbatim>\<open>receivePacket\<close> for the replica at \<open>k\<close>; the
  result is the \<^verbatim>\<open>retry\<close> flag, which is false when the switch is entered.
\<close>

definition classify :: "sockfd \<Rightarrow> packet \<Rightarrow> system \<Rightarrow> (error + bool) \<times> system" where
  "classify k p s =
     (case ptype p of
        Data \<Rightarrow> (Inr False, s)
      | Progress \<Rightarrow> (Inr False, s)
      | ProfileInfo \<Rightarrow> (Inr False, s)
      | Totals \<Rightarrow> (Inr False, s)
      | Extremes \<Rightarrow> (Inr False, s)
      | EndOfStream \<Rightarrow>
          (case drainResidualPackets (sendCancel (invalidate k s)) of
             (Inl e, s1) \<Rightarrow> (Inl e, s1)
           | (Inr _, s1) \<Rightarrow> (Inr False, s1))
      | Exception \<Rightarrow>
          (case drainResidualPackets (sendCancel (invalidate k s)) of
             (Inl e, s1) \<Rightarrow> (Inl e, s1)
           | (Inr _, s1) \<Rightarrow> (Inr False, s1))
      | Other _ \<Rightarrow>
          (let s1 = invalidate k s
           in (Inr (valid_replicas_count s1 > 0), s1)))"

section \<open>The receive loop\<close>

text \<open>The five packet types that both switch statements let pass.\<close>

fun streamable :: "packet_type \<Rightarrow> bool" where
  "streamable Data = True"
| "streamable Progress = True"
| "streamable ProfileInfo = True"
| "streamable Totals = True"
| "streamable Extremes = True"
| "streamable _ = False"

declare drain_connection.simps [simp del]

lemma map_of_modify:
  "map_of (map (\<lambda>(k', r). if k' = k then (k', f r) else (k', r)) h) j =
     (if j = k then map_option f (map_of h k) else map_of h j)"
  by (induction h) auto

lemma map_of_modify_replica [simp]:
  "map_of (replica_hash (modify_replica k f s)) j =
     (if j = k then map_option f (map_of (replica_hash s) k) else map_of (replica_hash s) j)"
  by (simp add: modify_replica_def map_of_modify)

lemma modify_replica_fields [simp]:
  "incoming (modify_replica k f s) = incoming s"
  "polls (modify_replica k f s) = polls s"
  "calls (modify_replica k f s) = calls s"
  "sockfd_of (modify_replica k f s) = sockfd_of s"
  "server_address (modify_replica k f s) = server_address s"
  "valid_replicas_count (modify_replica k f s) = valid_replicas_count s"
  "system.next_packet_number (modify_replica k f s) = system.next_packet_number s"
  by (simp_all add: modify_replica_def)

lemma drain_connection_Nil:
  "incoming s c = [] \<Longrightarrow> drain_connection c b s = (Inl NETWORK_ERROR, s)"
  by (subst drain_connection.simps) (simp add: connection_receivePacket_def)

lemma drain_connection_Cons:
  "incoming s c = p # ps \<Longrightarrow>
   drain_connection c b s =
     (if streamable (ptype p) then drain_connection c b (s\<lparr>incoming := (incoming s)(c := ps)\<rparr>)
      else (Inr (b \<or> ptype p \<noteq> EndOfStream), s\<lparr>incoming := (incoming s)(c := ps)\<rparr>))"
  by (subst drain_connection.simps) (cases "ptype p"; simp add: connection_receivePacket_def)

lemma drain_connection_closed:
  "drain_connection c b s =
     (case dropWhile (\<lambda>p. streamable (ptype p)) (incoming s c) of
        [] \<Rightarrow> (Inl NETWORK_ERROR, s\<lparr>incoming := (incoming s)(c := [])\<rparr>)
      | p # ps \<Rightarrow> (Inr (b \<or> ptype p \<noteq> EndOfStream), s\<lparr>incoming := (incoming s)(c := ps)\<rparr>))"
proof (induction "incoming s c" arbitrary: s)
  case Nil
  then have "(incoming s)(c := []) = incoming s" by auto
  with Nil show ?case
    by (simp add: drain_connection_Nil[OF Nil[symmetric]])
next
  case (Cons p ps)
  let ?s1 = "s\<lparr>incoming := (incoming s)(c := ps)\<rparr>"
  have "ps = incoming ?s1 c" by simp
  from Cons(1)[OF this]
  have IH: "drain_connection c b ?s1 =
     (case dropWhile (\<lambda>p. streamable (ptype p)) ps of
        [] \<Rightarrow> (Inl NETWORK_ERROR, s\<lparr>incoming := (incoming s)(c := [])\<rparr>)
      | p # ps \<Rightarrow> (Inr (b \<or> ptype p \<noteq> EndOfStream), s\<lparr>incoming := (incoming s)(c := ps)\<rparr>))"
    by (simp cong: list.case_cong)
  show ?case
    by (simp add: drain_connection_Cons[OF Cons(2)[symmetric]] IH Cons(2)[symmetric])
qed


lemma drain_connection_frame:
  "drain_connection c b s = (res, s') \<Longrightarrow> \<exists>i. s' = s\<lparr>incoming := i\<rparr>"
  by (auto simp: drain_connection_closed split: list.splits)

lemma drain_loop_frame:
  "drain_loop h b s = (res, s') \<Longrightarrow> \<exists>i. s' = s\<lparr>incoming := i\<rparr>"
proof (induction h arbitrary: b s)
  case Nil
  then have "s' = s\<lparr>incoming := incoming s\<rparr>" by simp
  then show ?case by blast
next
  case (Cons e h)
  obtain k r where e: "e = (k, r)" by (cases e)
  show ?case
  proof (cases "is_valid r")
    case False
    with Cons e show ?thesis by simp
  next
    case True
    obtain res1 s1 where d: "drain_connection (connection r) b s = (res1, s1)"
      by (cases "drain_connection (connection r) b s")
    from drain_connection_frame[OF d] obtain i where s1: "s1 = s\<lparr>incoming := i\<rparr>" by blast
    show ?thesis
    proof (cases res1)
      case (Inl err)
      with Cons.prems e True d s1 show ?thesis by auto
    next
      case (Inr caught)
      with Cons.prems e True d have "drain_loop h caught s1 = (res, s')" by simp
      from Cons.IH[OF this] obtain j where "s' = s1\<lparr>incoming := j\<rparr>" by blast
      with s1 have "s' = s\<lparr>incoming := j\<rparr>" by simp
      then show ?thesis by blast
    qed
  qed
qed

lemma drainResidualPackets_frame:
  "drainResidualPackets s = (res, s') \<Longrightarrow> \<exists>i. s' = s\<lparr>incoming := i\<rparr>"
  unfolding drainResidualPackets_def
  by (cases "drain_loop (replica_hash s) False s")
     (auto split: sum.splits dest: drain_loop_frame)

lemma classify_frame:
  "classify k p s = (res, s') \<Longrightarrow>
     sockfd_of s' = sockfd_of s \<and> server_address s' = server_address s \<and> polls s' = polls s \<and>
     system.next_packet_number s' = system.next_packet_number s \<and>
     (if streamable (ptype p) then replica_hash s' = replica_hash s \<and> incoming s' = incoming s
      else replica_hash s' = replica_hash (modify_replica k (\<lambda>r. r\<lparr>is_valid := False\<rparr>) s))"
  unfolding classify_def
  by (cases "ptype p")
     (auto simp: invalidate_def sendCancel_def Let_def modify_replica_def
           split: prod.splits sum.splits dest!: drainResidualPackets_frame)

text \<open>\<^verbatim>\<open>++replica.next_packet_number\<close>\<close>

definition increment_replica :: "sockfd \<Rightarrow> system \<Rightarrow> system" where
  "increment_replica k s =
     modify_replica k (\<lambda>r. r\<lparr>replica.next_packet_number := replica.next_packet_number r + 1\<rparr>) s"

lemma map_of_increment_replica [simp]:
  "map_of (replica_hash (increment_replica k s)) j =
     (if j = k
      then map_option (\<lambda>r. r\<lparr>replica.next_packet_number := replica.next_packet_number r + 1\<rparr>)
             (map_of (replica_hash s) k)
      else map_of (replica_hash s) j)"
  by (simp add: increment_replica_def)

lemma increment_replica_fields [simp]:
  "incoming (increment_replica k s) = incoming s"
  "polls (increment_replica k s) = polls s"
  "calls (increment_replica k s) = calls s"
  "sockfd_of (increment_replica k s) = sockfd_of s"
  "server_address (increment_replica k s) = server_address s"
  "valid_replicas_count (increment_replica k s) = valid_replicas_count s"
  "system.next_packet_number (increment_replica k s) = system.next_packet_number s"
  by (simp_all add: increment_replica_def)

text \<open>
  The inner loop of \<^verbatim>\<open>receivePacket\<close>, \<^verbatim>\<open>while (replica.is_valid)\<close>, for the replica
  that \<open>pickConnection\<close> returned. \<open>Inr (Some packet)\<close> is \<^verbatim>\<open>return packet\<close>,
  \<open>Inr None\<close> is the loop left with nothing returned. The switch changes nothing of
  the replica but \<open>is_valid\<close>, so the counter read after it is the one of \<open>replica\<close>.
\<close>

function receive_loop :: "sockfd \<Rightarrow> system \<Rightarrow> (error + packet option) \<times> system" where
  "receive_loop k s =
     (case map_of (replica_hash s) k of
        None \<Rightarrow> (Inr None, s)
      | Some replica \<Rightarrow>
          if \<not> is_valid replica then (Inr None, s)
          else
            (case connection_receivePacket (connection replica) s of
               (Inl e, s1) \<Rightarrow> (Inl e, s1)
             | (Inr packet, s1) \<Rightarrow>
                 (case classify k packet s1 of
                    (Inl e, s2) \<Rightarrow> (Inl e, s2)
                  | (Inr retry, s2) \<Rightarrow>
                      if replica.next_packet_number replica = system.next_packet_number s2 \<and> \<not> retry
                      then (Inr (Some packet),
                            (increment_replica k s2)
                              \<lparr>system.next_packet_number := system.next_packet_number s2 + 1\<rparr>)
                      else receive_loop k
                             (increment_replica k s2))))"
  by pat_completeness auto

definition receive_measure :: "sockfd \<times> system \<Rightarrow> nat" where
  "receive_measure = (\<lambda>(k, s).
     (case map_of (replica_hash s) k of
        None \<Rightarrow> 0
      | Some r \<Rightarrow> if is_valid r then Suc (length (incoming s (connection r))) else 0))"

lemma receive_measure_decreases:
  assumes r: "map_of (replica_hash s) k = Some replica" and v: "is_valid replica"
    and x: "connection_receivePacket (connection replica) s = (Inr packet, s1)"
    and c: "classify k packet s1 = (Inr retry, s2)"
  shows "receive_measure (k, increment_replica k s2)
         < receive_measure (k, s)"
proof -
  from x obtain ps where inc: "incoming s (connection replica) = packet # ps"
    and s1: "s1 = s\<lparr>incoming := (incoming s)(connection replica := ps)\<rparr>"
    by (auto simp: connection_receivePacket_def split: list.splits)
  note fr = classify_frame[OF c]
  show ?thesis
  proof (cases "streamable (ptype packet)")
    case True
    with fr s1 r v inc show ?thesis
      by (simp add: receive_measure_def)
  next
    case False
    with fr have "map_of (replica_hash s2) k =
        map_option (\<lambda>r. r\<lparr>is_valid := False\<rparr>) (map_of (replica_hash s1) k)"
      by simp
    with s1 r v inc show ?thesis
      by (simp add: receive_measure_def)
  qed
qed

termination receive_loop
proof (relation "measure receive_measure")
  show "wf (measure receive_measure)" by simp
next
  fix k s x2 x y b xa ya ba
  assume a: "map_of (replica_hash s) k = Some x2" "\<not> \<not> is_valid x2"
    "(x, y) = connection_receivePacket (connection x2) s" "x = Inr b"
    "(xa, ya) = classify k b y" "xa = Inr ba"
  have "receive_measure (k, increment_replica k ya)
         < receive_measure (k, s)"
    by (rule receive_measure_decreases[of s k x2 b y ba ya]) (use a in simp_all)
  then show "((k, increment_replica k ya), k, s)
        \<in> measure receive_measure"
    by simp
qed

declare receive_loop.simps [simp del]

lemma select_polls:
  "select read_list s = (ready, s') \<Longrightarrow>
     (ready \<noteq> [] \<longrightarrow> length (polls s') < length (polls s)) \<and> length (polls s') \<le> length (polls s)"
  by (auto simp: select_def split: list.splits)

lemma mark_can_read_polls:
  "mark_can_read fds s = (res, s') \<Longrightarrow> polls s' = polls s"
  by (induction fds arbitrary: s) (auto split: option.splits)

lemma waitForReadEvent_polls:
  "waitForReadEvent s = (Inr n, s') \<Longrightarrow> n > 0 \<Longrightarrow> length (polls s') < length (polls s)"
  unfolding waitForReadEvent_def
  by (auto simp: Let_def split: if_splits prod.splits sum.splits
           dest!: select_polls mark_can_read_polls)

lemma pickConnection_polls:
  "pickConnection s = (Inr k, s') \<Longrightarrow> length (polls s') < length (polls s)"
  unfolding pickConnection_def
  by (auto split: prod.splits sum.splits option.splits if_splits dest: waitForReadEvent_polls)

lemma receive_loop_polls:
  "receive_loop k s = (res, s') \<Longrightarrow> polls s' = polls s"
proof (induction k s rule: receive_loop.induct)
  case (1 k s)
  show ?case
  proof (cases "map_of (replica_hash s) k")
    case None
    with "1.prems" show ?thesis by (simp add: receive_loop.simps)
  next
    case (Some replica)
    show ?thesis
    proof (cases "is_valid replica")
      case False
      with Some "1.prems" show ?thesis by (simp add: receive_loop.simps)
    next
      case True
      obtain x s1 where x: "connection_receivePacket (connection replica) s = (x, s1)"
        by (cases "connection_receivePacket (connection replica) s")
      then have p1: "polls s1 = polls s"
        by (auto simp: connection_receivePacket_def split: list.splits)
      show ?thesis
      proof (cases x)
        case (Inl e)
        with Some True x "1.prems" p1 show ?thesis by (simp add: receive_loop.simps)
      next
        case (Inr packet)
        obtain y s2 where y: "classify k packet s1 = (y, s2)"
          by (cases "classify k packet s1")
        from classify_frame[OF y] have p2: "polls s2 = polls s1" by simp
        show ?thesis
        proof (cases y)
          case (Inl e)
          with Some True x Inr y "1.prems" p1 p2 show ?thesis by (simp add: receive_loop.simps)
        next
          case (Inr retry) note retry = this
          show ?thesis
          proof (cases "replica.next_packet_number replica = system.next_packet_number s2 \<and> \<not> retry")
            case True
            with Some \<open>is_valid replica\<close> x \<open>x = Inr packet\<close> y retry "1.prems" p1 p2 show ?thesis
              by (auto simp add: receive_loop.simps)
          next
            case False
            let ?s3 = "increment_replica k s2"
            from False Some \<open>is_valid replica\<close> x \<open>x = Inr packet\<close> y retry "1.prems"
            have "receive_loop k ?s3 = (res, s')"
              by (auto simp add: receive_loop.simps[of k s])
            from "1.IH"[OF Some _ x[symmetric] \<open>x = Inr packet\<close> y[symmetric] retry False this]
              \<open>is_valid replica\<close> p1 p2
            show ?thesis by simp
          qed
        qed
      qed
    qed
  qed
qed


text \<open>The outer loop, \<^verbatim>\<open>while (true)\<close>.\<close>

function receivePacket :: "system \<Rightarrow> (error + packet) \<times> system" where
  "receivePacket s =
     (case pickConnection s of
        (Inl e, s1) \<Rightarrow> (Inl e, s1)
      | (Inr k, s1) \<Rightarrow>
          (case receive_loop k s1 of
             (Inl e, s2) \<Rightarrow> (Inl e, s2)
           | (Inr (Some packet), s2) \<Rightarrow> (Inr packet, s2)
           | (Inr None, s2) \<Rightarrow> receivePacket s2))"
  by pat_completeness auto
termination
proof (relation "measure (\<lambda>s. length (polls s))")
  show "wf (measure (\<lambda>s. length (polls s)))" by simp
next
  fix s x y k xa ya b
  assume "(x, y) = pickConnection s" "x = Inr k" "(xa, ya) = receive_loop k y"
  then have "length (polls y) < length (polls s)" "polls ya = polls y"
    using pickConnection_polls[of s k y] receive_loop_polls[of k y xa ya] by simp_all
  then show "(ya, s) \<in> measure (\<lambda>s. length (polls s))" by simp
qed

declare receivePacket.simps [simp del]

text \<open>
  The states at the heads of the two loops of \<^verbatim>\<open>receivePacket\<close>, as the code reaches
  them. \<open>inner_head k s1 sa\<close>: the inner loop, entered in \<open>s1\<close> for the replica at
  \<open>k\<close>, is at its head in \<open>sa\<close>; every iteration before read a packet from the valid
  replica, classified it and took the \<^verbatim>\<open>else\<close> branch, which increments the replica's
  counter only. \<open>outer_head s s0\<close>: a call made in \<open>s\<close> is at the head of the outer
  loop in \<open>s0\<close>; every iteration before picked a replica and left the inner loop with
  nothing returned.
\<close>

inductive inner_head :: "sockfd \<Rightarrow> system \<Rightarrow> system \<Rightarrow> bool" for k :: sockfd and s1 :: system where
  entered: "inner_head k s1 s1"
| discarded:
    "inner_head k s1 sa \<Longrightarrow> map_of (replica_hash sa) k = Some r \<Longrightarrow> is_valid r \<Longrightarrow>
     connection_receivePacket (connection r) sa = (Inr p, sb) \<Longrightarrow>
     classify k p sb = (Inr retry, s2) \<Longrightarrow>
     \<not> (replica.next_packet_number r = system.next_packet_number s2 \<and> \<not> retry) \<Longrightarrow>
     inner_head k s1 (increment_replica k s2)"

inductive outer_head :: "system \<Rightarrow> system \<Rightarrow> bool" for s :: system where
  called: "outer_head s s"
| repicked:
    "outer_head s s0 \<Longrightarrow> pickConnection s0 = (Inr k, s1) \<Longrightarrow>
     receive_loop k s1 = (Inr None, s2) \<Longrightarrow> outer_head s s2"

code_pred inner_head .
code_pred outer_head .


section \<open>Diagnostics\<close>

text \<open>
  The loop of \<^verbatim>\<open>dumpAddresses\<close>; \<open>os\<close> is the stream written so far. \<open>prefix\<close> is
  declared inside the loop body, so the assignment at the end of an iteration is to a
  variable that ends with it.
\<close>

fun dump_loop :: "(sockfd \<times> replica) list \<Rightarrow> system \<Rightarrow> string \<Rightarrow> string" where
  "dump_loop [] s os = os"
| "dump_loop ((k, r) # h) s os =
     (let prefix = CHR 0x00
      in if is_valid r
         then (let os' = os @ prefix # server_address s (connection r);
                   prefix' = (if prefix = CHR 0x00 then CHR '';'' else prefix)
               in dump_loop h s os')
         else dump_loop h s os)"

definition dumpAddresses :: "system \<Rightarrow> string" where
  "dumpAddresses s = (if valid_replicas_count s = 0 then [] else dump_loop (replica_hash s) s [])"

section \<open>Callers and example systems\<close>

text \<open>The entries of valid replicas, in iteration order, and their number.\<close>

definition valid_replicas :: "system \<Rightarrow> (sockfd \<times> replica) list" where
  "valid_replicas s = filter (\<lambda>(k, r). is_valid r) (replica_hash s)"

definition valid_count :: "(sockfd \<times> replica) list \<Rightarrow> int" where
  "valid_count h = int (length (filter (\<lambda>(k, r). is_valid r) h))"

text \<open>A caller that calls \<^verbatim>\<open>receivePacket\<close> \<open>n\<close> times, whatever each call answers.\<close>

fun receive_many :: "nat \<Rightarrow> system \<Rightarrow> (error + packet) list \<times> system" where
  "receive_many 0 s = ([], s)"
| "receive_many (Suc n) s =
     (case receivePacket s of (res, s1) \<Rightarrow>
        (case receive_many n s1 of (rest, s2) \<Rightarrow> (res # rest, s2)))"

text \<open>
  Three replicas on the sockets 11, 12 and 13: the first delivers a data packet and the
  end of its stream, the second two data packets and the end of its stream, the third
  the end of its stream at once.
\<close>

definition mk_packet :: "packet_type \<Rightarrow> nat \<Rightarrow> packet" where
  "mk_packet t n = \<lparr>ptype = t, payload = n\<rparr>"

definition example_world :: world where
  "example_world =
     \<lparr>sockfd_of = (\<lambda>c. int c + 10),
      server_address = (\<lambda>c. if c = 1 then ''alpha'' else if c = 2 then ''beta'' else ''gamma''),
      incoming = (\<lambda>c. if c = 1 then [mk_packet Data 1, mk_packet EndOfStream 0]
                       else if c = 2 then [mk_packet Data 2, mk_packet Data 3, mk_packet EndOfStream 0]
                       else if c = 3 then [mk_packet EndOfStream 0]
                       else []),
      polls = [[11, 12, 13], [12], [12, 13], [13]],
      calls = []\<rparr>"

definition example_system :: system where
  "example_system = ReplicasConnections [1, 2, 3] example_world"

text \<open>A coordinator whose only replica has become invalid.\<close>

definition drained_system :: system where
  "drained_system =
     example_system\<lparr>replica_hash := [(11, (Replica 1)\<lparr>is_valid := False, can_read := True\<rparr>)],
                    valid_replicas_count := 0\<rparr>"

text \<open>
  Well-formed systems: the keys of the table are distinct (it is a hash map), every
  replica is filed under the socket of its connection and has a counter that is not
  negative, and \<open>valid_replicas_count\<close> counts the valid replicas.
\<close>

definition wf_system :: "system \<Rightarrow> bool" where
  "wf_system s \<longleftrightarrow>
     distinct (map fst (replica_hash s)) \<and>
     list_all (\<lambda>(k, r). sockfd_of s (connection r) = k \<and> 0 \<le> replica.next_packet_number r)
       (replica_hash s) \<and>
     valid_replicas_count s = valid_count (replica_hash s)"


text \<open>The example system with an unrecognized packet at the head of the first connection.\<close>

definition malformed_system :: system where
  "malformed_system =
     example_system\<lparr>incoming := (incoming example_system)
        (1 := [mk_packet (Other 99) 0, mk_packet Data 1])\<rparr>"


text \<open>
  The system with the unrecognized packet, polled twice: in \<open>unready_system\<close> only the
  first socket is readable in both polls, in \<open>retry_system\<close> the second socket is
  readable in the second poll. \<open>retry_picked\<close> is \<open>retry_system\<close> after its first
  \<open>pickConnection\<close>.
\<close>

definition unready_system :: system where
  "unready_system = malformed_system\<lparr>polls := [[11], [11]]\<rparr>"

definition retry_system :: system where
  "retry_system = malformed_system\<lparr>polls := [[11], [12]]\<rparr>"

definition retry_picked :: system where
  "retry_picked =
     retry_system
       \<lparr>polls := [[12]],
        replica_hash := [(11, (Replica 1)\<lparr>can_read := True\<rparr>), (12, Replica 2), (13, Replica 3)]\<rparr>"

text \<open>
  The example coordinator in a world where every poll finds one socket readable, so that
  the replica picked does not depend on the order of the table.
\<close>

definition serial_system :: system where
  "serial_system = ReplicasConnections [1, 2, 3] (example_world\<lparr>polls := [[11], [12], [12], [13]]\<rparr>)"

text \<open>
  How a replica may change: it keeps its connection, it does not become valid again, and
  its counter does not decrease. \<open>evolves\<close> lifts this to the table, entry by entry
  with the keys unchanged; \<open>step_ok\<close> adds that well-formedness is kept.
\<close>

definition replica_le :: "replica \<Rightarrow> replica \<Rightarrow> bool" where
  "replica_le r r' \<longleftrightarrow>
     connection r' = connection r \<and> (is_valid r' \<longrightarrow> is_valid r) \<and>
     replica.next_packet_number r \<le> replica.next_packet_number r'"

definition evolves :: "system \<Rightarrow> system \<Rightarrow> bool" where
  "evolves s s' \<longleftrightarrow>
     list_all2 (\<lambda>(k, r) (k', r'). k' = k \<and> replica_le r r') (replica_hash s) (replica_hash s') \<and>
     sockfd_of s' = sockfd_of s \<and> server_address s' = server_address s"

definition step_ok :: "system \<Rightarrow> system \<Rightarrow> bool" where
  "step_ok s s' \<longleftrightarrow> evolves s s' \<and> (wf_system s \<longrightarrow> wf_system s')"

text \<open>
  What can happen to a coordinator after its construction: a call of one of its member
  functions, or the world moving on (\<open>Op_world\<close>: other packets are pending, other
  polls are to come). \<open>run\<close> performs a list of operations, \<open>returned_count\<close> counts
  the calls of \<open>receivePacket\<close> among them that returned a packet.
\<close>

datatype operation =
    Op_receivePacket
  | Op_sendQuery string string nat nat bool
  | Op_disconnect
  | Op_sendCancel
  | Op_sendExternalTablesData "ExternalTablesData list"
  | Op_dumpAddresses
  | Op_waitForReadEvent
  | Op_pickConnection
  | Op_drainResidualPackets
  | Op_world "conn \<Rightarrow> packet list" "sockfd list list"

fun perform :: "operation \<Rightarrow> system \<Rightarrow> system" where
  "perform Op_receivePacket s = snd (receivePacket s)"
| "perform (Op_sendQuery query query_id stage settings' with_pending_data) s =
     sendQuery query query_id stage settings' with_pending_data s"
| "perform Op_disconnect s = disconnect s"
| "perform Op_sendCancel s = sendCancel s"
| "perform (Op_sendExternalTablesData data) s = snd (sendExternalTablesData data s)"
| "perform Op_dumpAddresses s = s"
| "perform Op_waitForReadEvent s = snd (waitForReadEvent s)"
| "perform Op_pickConnection s = snd (pickConnection s)"
| "perform Op_drainResidualPackets s = snd (drainResidualPackets s)"
| "perform (Op_world i q) s = s\<lparr>incoming := i, polls := q\<rparr>"

fun returned :: "operation \<Rightarrow> system \<Rightarrow> nat" where
  "returned Op_receivePacket s = (case fst (receivePacket s) of Inr p \<Rightarrow> 1 | Inl e \<Rightarrow> 0)"
| "returned _ s = 0"

fun run :: "operation list \<Rightarrow> system \<Rightarrow> system" where
  "run [] s = s"
| "run (op # ops) s = run ops (perform op s)"

fun returned_count :: "operation list \<Rightarrow> system \<Rightarrow> nat" where
  "returned_count [] s = 0"
| "returned_count (op # ops) s = returned op s + returned_count ops (perform op s)"

section \<open>Diagnostics and broadcasts: properties\<close>

lemma example_system_eq:
  "example_system =
     \<lparr>sockfd_of = sockfd_of example_world, server_address = server_address example_world,
      incoming = incoming example_world, polls = polls example_world, calls = [],
      replica_hash = [(11, Replica 1), (12, Replica 2), (13, Replica 3)],
      valid_replicas_count = 3, system.next_packet_number = 0\<rparr>"
  by (simp add: example_system_def ReplicasConnections_def insert_replica_def example_world_def
        Replica_def initial_next_packet_number_def)

lemma dump_loop_eq:
  "dump_loop h s os =
     os @ concat (map (\<lambda>(k, r). CHR 0x00 # server_address s (connection r))
                    (filter (\<lambda>(k, r). is_valid r) h))"
  by (induction h s os rule: dump_loop.induct) (simp_all add: Let_def)

text \<open>
  C10: \<open>dumpAddresses\<close> returns the empty string when \<open>valid_replicas_count\<close> is 0, and
  otherwise, for each valid replica in iteration order, a NUL character followed by
  the replica's server address.
\<close>

theorem dumpAddresses_nul_before_every_address:
  "dumpAddresses s =
     (if valid_replicas_count s = 0 then []
      else concat (map (\<lambda>(k, r). CHR 0x00 # server_address s (connection r)) (valid_replicas s)))"
  by (simp add: dumpAddresses_def dump_loop_eq valid_replicas_def)

lemma count_list_concat_prefixed:
  "count_list (concat (map (\<lambda>(k, r). CHR 0x00 # f r) h)) CHR '';'' =
   count_list (concat (map (\<lambda>(k, r). f r) h)) CHR '';''"
  by (induction h) auto

lemma filter_concat_prefixed:
  "filter (\<lambda>c. c \<noteq> CHR 0x00) (concat (map (\<lambda>(k, r). CHR 0x00 # f r) h)) =
   filter (\<lambda>c. c \<noteq> CHR 0x00) (concat (map (\<lambda>(k, r). f r) h))"
  by (induction h) auto

text \<open>
  C9: \<open>dumpAddresses\<close> lists the server addresses of exactly the valid replicas, and
  emits no separator: the output has as many \<open>;\<close> as the addresses themselves, and
  without its NUL characters it is the addresses of the valid replicas in a row.
\<close>

theorem dumpAddresses_never_emits_separator:
  assumes "valid_replicas_count s = valid_count (replica_hash s)"
  shows "count_list (dumpAddresses s) CHR '';'' =
           count_list (concat (map (\<lambda>(k, r). server_address s (connection r)) (valid_replicas s))) CHR '';'' \<and>
         filter (\<lambda>c. c \<noteq> CHR 0x00) (dumpAddresses s) =
           filter (\<lambda>c. c \<noteq> CHR 0x00)
             (concat (map (\<lambda>(k, r). server_address s (connection r)) (valid_replicas s)))"
proof (cases "valid_replicas_count s = 0")
  case True
  with assms have "valid_replicas s = []"
    by (simp add: valid_count_def valid_replicas_def)
  with True show ?thesis by (simp add: dumpAddresses_def)
next
  case False
  then have "dumpAddresses s =
      concat (map (\<lambda>(k, r). CHR 0x00 # server_address s (connection r)) (valid_replicas s))"
    by (simp add: dumpAddresses_def dump_loop_eq valid_replicas_def)
  then show ?thesis
    by (simp add: count_list_concat_prefixed filter_concat_prefixed)
qed

theorem dumpAddresses_never_emits_separator_witness:
  "valid_replicas_count example_system = valid_count (replica_hash example_system) \<and>
   count_list (dumpAddresses example_system) CHR '';'' = 0 \<and>
   filter (\<lambda>c. c \<noteq> CHR 0x00) (dumpAddresses example_system) = ''alphabetagamma''"
proof -
  have h: "valid_replicas_count example_system = valid_count (replica_hash example_system)"
    by (simp add: example_system_eq valid_count_def Replica_def)
  from dumpAddresses_never_emits_separator[OF h] h show ?thesis
    by (simp add: valid_replicas_def example_system_eq Replica_def example_world_def)
qed

lemma send_data_loop_zip:
  "send_data_loop h data = map (\<lambda>((k, r), d). SendExternalTablesData (connection r) d) (zip h data)"
  by (induction h data rule: send_data_loop.induct) simp_all

text \<open>
  C8: \<open>sendExternalTablesData\<close> fails with \<open>MISMATCH_REPLICAS_DATA_SOURCES\<close> and leaves
  everything as it was, no call issued, when the length of \<open>data\<close> differs from the
  number of replicas in the table, valid or not; otherwise it sends each payload to
  the connection of the replica at the same position of the iteration.
\<close>

theorem sendExternalTablesData_checks_length:
  "sendExternalTablesData data s =
     (if length data = length (replica_hash s)
      then (Inr (), s\<lparr>calls := calls s @
              map (\<lambda>((k, r), d). SendExternalTablesData (connection r) d) (zip (replica_hash s) data)\<rparr>)
      else (Inl MISMATCH_REPLICAS_DATA_SOURCES, s))"
  by (simp add: sendExternalTablesData_def send_data_loop_zip)

lemma waitForReadEvent_none_valid:
  "valid_replicas_count s = 0 \<Longrightarrow> waitForReadEvent s = (Inr 0, s)"
  by (simp add: waitForReadEvent_def)

lemma pickConnection_none_valid:
  "valid_replicas_count s = 0 \<Longrightarrow> pickConnection s = (Inl NO_AVAILABLE_REPLICA, s)"
  by (simp add: pickConnection_def waitForReadEvent_none_valid)

lemma receivePacket_none_valid:
  "valid_replicas_count s = 0 \<Longrightarrow> receivePacket s = (Inl NO_AVAILABLE_REPLICA, s)"
  by (subst receivePacket.simps) (simp add: pickConnection_none_valid)

lemma perform_none_valid:
  assumes "valid_replicas_count s = 0"
  shows "valid_replicas_count (perform op s) = 0 \<and> returned op s = 0"
proof (cases op)
  case Op_receivePacket
  with assms show ?thesis by (simp add: receivePacket_none_valid)
next
  case (Op_sendQuery q i st se p)
  with assms show ?thesis by (simp add: sendQuery_def)
next
  case Op_disconnect
  with assms show ?thesis by (simp add: disconnect_def)
next
  case Op_sendCancel
  with assms show ?thesis by (simp add: sendCancel_def)
next
  case (Op_sendExternalTablesData d)
  with assms show ?thesis by (simp add: sendExternalTablesData_def)
next
  case Op_dumpAddresses
  with assms show ?thesis by simp
next
  case Op_waitForReadEvent
  with assms show ?thesis by (simp add: waitForReadEvent_none_valid)
next
  case Op_pickConnection
  with assms show ?thesis by (simp add: pickConnection_none_valid)
next
  case Op_drainResidualPackets
  with assms show ?thesis
    using drainResidualPackets_frame[of s "fst (drainResidualPackets s)" "snd (drainResidualPackets s)"]
    by auto
next
  case (Op_world i q)
  with assms show ?thesis by simp
qed

lemma run_none_valid:
  "valid_replicas_count s = 0 \<Longrightarrow>
   valid_replicas_count (run ops s) = 0 \<and> returned_count ops s = 0"
  by (induction ops arbitrary: s) (simp_all add: perform_none_valid)

text \<open>
  C7: with \<open>valid_replicas_count\<close> at 0, \<open>waitForReadEvent\<close> returns 0 and consumes no
  poll, \<open>pickConnection\<close> and \<open>receivePacket\<close> raise \<open>NO_AVAILABLE_REPLICA\<close>, and the
  state is unchanged, so every later attempt fails the same way; whatever operations
  follow, the count stays 0 and no call of \<open>receivePacket\<close> returns a packet.
\<close>

theorem no_valid_replica_no_packet:
  assumes "valid_replicas_count s = 0"
  shows "waitForReadEvent s = (Inr 0, s) \<and>
         pickConnection s = (Inl NO_AVAILABLE_REPLICA, s) \<and>
         receivePacket s = (Inl NO_AVAILABLE_REPLICA, s) \<and>
         receive_many n s = (replicate n (Inl NO_AVAILABLE_REPLICA), s) \<and>
         valid_replicas_count (run ops s) = 0 \<and>
         returned_count ops s = 0"
proof -
  have "receive_many n s = (replicate n (Inl NO_AVAILABLE_REPLICA), s)"
    by (induction n) (simp_all add: receivePacket_none_valid[OF assms])
  with assms run_none_valid[OF assms, of ops] show ?thesis
    by (simp add: waitForReadEvent_none_valid pickConnection_none_valid receivePacket_none_valid)
qed

theorem no_valid_replica_no_packet_witness:
  "valid_replicas_count drained_system = 0 \<and>
   waitForReadEvent drained_system = (Inr 0, drained_system) \<and>
   pickConnection drained_system = (Inl NO_AVAILABLE_REPLICA, drained_system) \<and>
   receivePacket drained_system = (Inl NO_AVAILABLE_REPLICA, drained_system) \<and>
   receive_many 2 drained_system =
     ([Inl NO_AVAILABLE_REPLICA, Inl NO_AVAILABLE_REPLICA], drained_system) \<and>
   returned_count
     [Op_receivePacket, Op_world (\<lambda>c. [mk_packet Data 1]) [[11]], Op_receivePacket]
     drained_system = 0"
proof -
  have h: "valid_replicas_count drained_system = 0" by (simp add: drained_system_def)
  have r: "replicate 2 x = [x, x]" for x :: "error + packet" by (simp add: numeral_2_eq_2)
  from no_valid_replica_no_packet[OF h, of 2
      "[Op_receivePacket, Op_world (\<lambda>c. [mk_packet Data 1]) [[11]], Op_receivePacket]"] h
  show ?thesis by (simp only: r)
qed

text \<open>
  C5 as stated, that a second \<open>disconnect\<close> skips every replica, fails: on the example
  system the second call disconnects the three connections again.
\<close>

theorem disconnect_twice_repeats:
  "calls (disconnect (disconnect example_system)) =
     [Disconnect 1, Disconnect 2, Disconnect 3, Disconnect 1, Disconnect 2, Disconnect 3] \<and>
   calls (disconnect example_system) = [Disconnect 1, Disconnect 2, Disconnect 3]"
  by (simp add: disconnect_def example_system_eq Replica_def)

text \<open>
  C5, amended: \<open>disconnect\<close> calls \<^verbatim>\<open>Connection::disconnect\<close> on the connections of
  exactly the valid replicas, in iteration order, and changes nothing of the
  coordinator; a second call repeats the same calls.
\<close>

theorem disconnect_calls_valid_replicas:
  "calls (disconnect s) = calls s @ map (\<lambda>(k, r). Disconnect (connection r)) (valid_replicas s) \<and>
   disconnect s = s\<lparr>calls := calls (disconnect s)\<rparr> \<and>
   calls (disconnect (disconnect s)) =
     calls s @ map (\<lambda>(k, r). Disconnect (connection r)) (valid_replicas s)
             @ map (\<lambda>(k, r). Disconnect (connection r)) (valid_replicas s)"
  by (simp add: disconnect_def valid_replicas_def)

section \<open>Selection: properties\<close>

lemma map_fst_modify [simp]:
  "map fst (replica_hash (modify_replica k f s)) = map fst (replica_hash s)"
  by (simp add: modify_replica_def) (induction "replica_hash s"; auto simp: case_prod_beta)

lemma set_modify_replica:
  "set (replica_hash (modify_replica k f s)) =
     (\<lambda>(k', r). if k' = k then (k', f r) else (k', r)) ` set (replica_hash s)"
  by (simp add: modify_replica_def)

lemma map_mark_modify:
  "map (\<lambda>(k, r). (k, if k \<in> A then r\<lparr>can_read := True\<rparr> else r))
     (map (\<lambda>(k', r). if k' = fd then (k', r\<lparr>can_read := True\<rparr>) else (k', r)) h) =
   map (\<lambda>(k, r). (k, if k = fd \<or> k \<in> A then r\<lparr>can_read := True\<rparr> else r)) h"
  by (induction h) auto

lemma mark_can_read_closed:
  "set fds \<subseteq> fst ` set (replica_hash s) \<Longrightarrow>
   mark_can_read fds s =
     (Inr (), s\<lparr>replica_hash :=
        map (\<lambda>(k, r). (k, if k \<in> set fds then r\<lparr>can_read := True\<rparr> else r)) (replica_hash s)\<rparr>)"
proof (induction fds arbitrary: s)
  case Nil
  have "map (\<lambda>(k, r). (k, r)) (replica_hash s) = replica_hash s" by (induction "replica_hash s") auto
  then show ?case by simp
next
  case (Cons fd fds)
  from Cons.prems obtain r where "map_of (replica_hash s) fd = Some r"
    by (cases "map_of (replica_hash s) fd") (auto simp: map_of_eq_None_iff)
  moreover have "set fds \<subseteq> fst ` set (replica_hash (modify_replica fd (\<lambda>r. r\<lparr>can_read := True\<rparr>) s))"
    using Cons.prems by (metis list.set_map map_fst_modify set_subset_Cons subset_trans)
  ultimately show ?case
    using Cons.IH[of "modify_replica fd (\<lambda>r. r\<lparr>can_read := True\<rparr>) s"]
    by (simp add: modify_replica_def map_mark_modify del: map_map)
qed

lemma pick_loop_max:
  "pick_loop h m res = res' \<Longrightarrow>
     (res' = res \<and> (\<forall>(k, r) \<in> set h. can_read r \<longrightarrow> replica.next_packet_number r \<le> m)) \<or>
     (\<exists>k r. res' = Some k \<and> (k, r) \<in> set h \<and> can_read r \<and> m < replica.next_packet_number r \<and>
        (\<forall>(k', r') \<in> set h. can_read r' \<longrightarrow> replica.next_packet_number r' \<le> replica.next_packet_number r))"
proof (induction h arbitrary: m res)
  case Nil
  then show ?case by simp
next
  case (Cons e h)
  obtain k0 r0 where e: "e = (k0, r0)" by (cases e)
  let ?n0 = "replica.next_packet_number r0"
  show ?case
  proof (cases "can_read r0 \<and> ?n0 > m")
    case True
    with Cons.prems e have "pick_loop h ?n0 (Some k0) = res'" by simp
    from Cons.IH[OF this] show ?thesis
    proof (elim disjE conjE exE)
      assume "res' = Some k0"
        and "\<forall>(k, r) \<in> set h. can_read r \<longrightarrow> replica.next_packet_number r \<le> ?n0"
      with True e have "res' = Some k0 \<and> (k0, r0) \<in> set (e # h) \<and> can_read r0 \<and> m < ?n0 \<and>
        (\<forall>(k', r') \<in> set (e # h). can_read r' \<longrightarrow> replica.next_packet_number r' \<le> ?n0)"
        by simp
      then show ?thesis by blast
    next
      fix k r
      assume "res' = Some k" "(k, r) \<in> set h" "can_read r" "?n0 < replica.next_packet_number r"
        and "\<forall>(k', r') \<in> set h. can_read r' \<longrightarrow> replica.next_packet_number r' \<le> replica.next_packet_number r"
      with True e have "res' = Some k \<and> (k, r) \<in> set (e # h) \<and> can_read r \<and>
        m < replica.next_packet_number r \<and>
        (\<forall>(k', r') \<in> set (e # h). can_read r' \<longrightarrow> replica.next_packet_number r' \<le> replica.next_packet_number r)"
        by simp
      then show ?thesis by blast
    qed
  next
    case False
    with Cons.prems e have "pick_loop h m res = res'" by simp
    from Cons.IH[OF this] show ?thesis
    proof (elim disjE conjE exE)
      assume "res' = res"
        and "\<forall>(k, r) \<in> set h. can_read r \<longrightarrow> replica.next_packet_number r \<le> m"
      with False e have "res' = res \<and>
        (\<forall>(k, r) \<in> set (e # h). can_read r \<longrightarrow> replica.next_packet_number r \<le> m)"
        by auto
      then show ?thesis by blast
    next
      fix k r
      assume "res' = Some k" "(k, r) \<in> set h" "can_read r" "m < replica.next_packet_number r"
        and "\<forall>(k', r') \<in> set h. can_read r' \<longrightarrow> replica.next_packet_number r' \<le> replica.next_packet_number r"
      with False e have "res' = Some k \<and> (k, r) \<in> set (e # h) \<and> can_read r \<and>
        m < replica.next_packet_number r \<and>
        (\<forall>(k', r') \<in> set (e # h). can_read r' \<longrightarrow> replica.next_packet_number r' \<le> replica.next_packet_number r)"
        by auto
      then show ?thesis by blast
    qed
  qed
qed

lemma map_reset_mark:
  "map (\<lambda>(k, r). (k, if k \<in> A then r\<lparr>can_read := True\<rparr> else r))
     (map (\<lambda>(k, r). (k, r\<lparr>can_read := False\<rparr>)) h) =
   map (\<lambda>(k, r). (k, r\<lparr>can_read := k \<in> A\<rparr>)) h"
  by (induction h) auto

lemma map_fst_relabel:
  "map fst (map (\<lambda>(k, r). (k, g k r)) h) = map fst h"
  by (induction h) auto

lemma fst_image_relabel:
  "fst ` (\<lambda>(k, r). (k, g k r)) ` A = fst ` A"
  by (simp add: image_image case_prod_beta)

lemma read_list_keys:
  "list_all (\<lambda>(k, r). f (connection r) = k \<and> P r) h \<Longrightarrow>
   map (\<lambda>(k, r). f (connection r)) (filter (\<lambda>(k, r). is_valid r) h) =
   map fst (filter (\<lambda>(k, r). is_valid r) h)"
  by (rule map_cong) (auto simp: list_all_iff)

lemma waitForReadEvent_post:
  assumes wf: "wf_system s" and nz: "valid_replicas_count s \<noteq> 0"
    and w: "waitForReadEvent s = (res, s')"
  shows "\<exists>ready. res = Inr (int (length ready)) \<and>
           set ready \<subseteq> fst ` set (valid_replicas s) \<and>
           s' = s\<lparr>polls := tl (polls s),
                 replica_hash := map (\<lambda>(k, r). (k, r\<lparr>can_read := k \<in> set ready\<rparr>)) (replica_hash s)\<rparr>"
proof -
  let ?keys = "map fst (filter (\<lambda>(k, r). is_valid r) (replica_hash s))"
  let ?s1 = "s\<lparr>replica_hash := map (\<lambda>(k, r). (k, r\<lparr>can_read := False\<rparr>)) (replica_hash s)\<rparr>"
  define ready where "ready = fst (select ?keys ?s1)"
  from wf have "list_all (\<lambda>(k, r). sockfd_of s (connection r) = k \<and> 0 \<le> replica.next_packet_number r)
       (replica_hash s)"
    by (simp add: wf_system_def)
  then have rl: "map (\<lambda>(k, r). sockfd_of s (connection r)) (filter (\<lambda>(k, r). is_valid r) (replica_hash s)) = ?keys"
    by (rule read_list_keys)
  have sel: "select ?keys ?s1 = (ready, ?s1\<lparr>polls := tl (polls s)\<rparr>)"
    by (auto simp: ready_def select_def split: list.splits)
  have sub: "set ready \<subseteq> set ?keys"
    by (auto simp: ready_def select_def split: list.splits)
  have "set ?keys \<subseteq> fst ` set (replica_hash s)"
    by auto
  with sub have sub2: "set ready \<subseteq> fst ` set (replica_hash (?s1\<lparr>polls := tl (polls s)\<rparr>))"
    by (simp add: fst_image_relabel)
  have "waitForReadEvent s =
          (case mark_can_read ready (?s1\<lparr>polls := tl (polls s)\<rparr>) of
             (Inl e, s3) \<Rightarrow> (Inl e, s3)
           | (Inr _, s3) \<Rightarrow> (Inr (int (length ready)), s3))"
    using nz by (simp add: waitForReadEvent_def rl sel Let_def)
  with w have "res = Inr (int (length ready))"
    and "s' = s\<lparr>polls := tl (polls s),
                 replica_hash := map (\<lambda>(k, r). (k, r\<lparr>can_read := k \<in> set ready\<rparr>)) (replica_hash s)\<rparr>"
    by (auto simp add: mark_can_read_closed[OF sub2] map_reset_mark simp del: map_map)
  moreover from sub have "set ready \<subseteq> fst ` set (valid_replicas s)"
    by (simp add: valid_replicas_def)
  ultimately show ?thesis
    by (intro exI[of _ ready]) simp
qed


lemma map_reset_relabel:
  "map (\<lambda>(k, r). (k, r\<lparr>can_read := False\<rparr>)) (map (\<lambda>(k, r). (k, r\<lparr>can_read := g k\<rparr>)) h) =
   map (\<lambda>(k, r). (k, r\<lparr>can_read := False\<rparr>)) h"
  by (induction h) (simp_all add: case_prod_beta)

lemma valid_count_zero:
  "valid_count h = 0 \<Longrightarrow> (k, r) \<in> set h \<Longrightarrow> \<not> is_valid r"
  by (auto simp: valid_count_def filter_empty_conv)

lemma pickConnection_post:
  assumes wf: "wf_system s" and p: "pickConnection s = (res, s')"
  shows "map (\<lambda>(k, r). (k, r\<lparr>can_read := False\<rparr>)) (replica_hash s') =
           map (\<lambda>(k, r). (k, r\<lparr>can_read := False\<rparr>)) (replica_hash s) \<and>
         (case res of
            Inr k \<Rightarrow>
              (\<exists>r. map_of (replica_hash s') k = Some r \<and> can_read r \<and> is_valid r \<and>
                 (\<forall>(k', r') \<in> set (replica_hash s'). can_read r' \<and> is_valid r' \<longrightarrow>
                    replica.next_packet_number r' \<le> replica.next_packet_number r))
          | Inl e \<Rightarrow>
              e = NO_AVAILABLE_REPLICA \<and>
              (\<forall>(k', r') \<in> set (replica_hash s'). \<not> (can_read r' \<and> is_valid r')))"
proof (cases "valid_replicas_count s = 0")
  case True
  with p have "res = Inl NO_AVAILABLE_REPLICA" "s' = s"
    by (simp_all add: pickConnection_none_valid)
  moreover from True wf have "\<forall>(k', r') \<in> set (replica_hash s). \<not> is_valid r'"
    by (auto simp: wf_system_def dest: valid_count_zero)
  ultimately show ?thesis by auto
next
  case False
  obtain wres s1 where w: "waitForReadEvent s = (wres, s1)"
    by (cases "waitForReadEvent s")
  from waitForReadEvent_post[OF wf False w] obtain ready where
    wres: "wres = Inr (int (length ready))" and
    sub: "set ready \<subseteq> fst ` set (valid_replicas s)" and
    s1: "s1 = s\<lparr>polls := tl (polls s),
              replica_hash := map (\<lambda>(k, r). (k, r\<lparr>can_read := k \<in> set ready\<rparr>)) (replica_hash s)\<rparr>"
    by blast
  let ?h = "replica_hash s" and ?h' = "replica_hash s1"
  have h': "?h' = map (\<lambda>(k, r). (k, r\<lparr>can_read := k \<in> set ready\<rparr>)) ?h"
    by (simp add: s1)
  from wf have dist: "distinct (map fst ?h)" by (simp add: wf_system_def)
  then have dist': "distinct (map fst ?h')" by (simp add: h' map_fst_relabel del: map_map)
  have mem: "\<exists>r. (k', r) \<in> set ?h \<and> r' = r\<lparr>can_read := k' \<in> set ready\<rparr>"
    if "(k', r') \<in> set ?h'" for k' r'
    using that by (auto simp: h')
  have valid: "is_valid r'" if "(k', r') \<in> set ?h'" "can_read r'" for k' r'
  proof -
    from mem[OF that(1)] obtain r where r: "(k', r) \<in> set ?h" "r' = r\<lparr>can_read := k' \<in> set ready\<rparr>"
      by blast
    with that(2) have "k' \<in> set ready" by simp
    with sub obtain r0 where "(k', r0) \<in> set ?h" "is_valid r0"
      by (auto simp: valid_replicas_def)
    with dist r(1) have "r0 = r" by (meson eq_key_imp_eq_value)
    with \<open>is_valid r0\<close> r(2) show ?thesis by simp
  qed
  have nonneg: "0 \<le> replica.next_packet_number r'" if "(k', r') \<in> set ?h'" for k' r'
  proof -
    from mem[OF that] obtain r where r: "(k', r) \<in> set ?h" "r' = r\<lparr>can_read := k' \<in> set ready\<rparr>"
      by blast
    with wf show ?thesis by (auto simp: wf_system_def list_all_iff)
  qed
  have same: "map (\<lambda>(k, r). (k, r\<lparr>can_read := False\<rparr>)) ?h' = map (\<lambda>(k, r). (k, r\<lparr>can_read := False\<rparr>)) ?h"
    by (simp only: h' map_reset_relabel)
  show ?thesis
  proof (cases "ready = []")
    case True
    with p w wres have "res = Inl NO_AVAILABLE_REPLICA" "s' = s1"
      by (simp_all add: pickConnection_def)
    moreover from True have "\<forall>(k', r') \<in> set ?h'. \<not> can_read r'"
      by (auto simp: h')
    ultimately show ?thesis using same by auto
  next
    case nonempty: False
    define res0 where "res0 = pick_loop ?h' (- 1) None"
    from nonempty p w wres have res: "(res, s') = (case res0 of None \<Rightarrow> (Inl NO_AVAILABLE_REPLICA, s1) | Some k \<Rightarrow> (Inr k, s1))"
      by (simp add: pickConnection_def res0_def)
    from nonempty obtain k0 where "k0 \<in> set ready" by (cases ready) auto
    with sub obtain r0 where "(k0, r0) \<in> set ?h" by (auto simp: valid_replicas_def)
    with \<open>k0 \<in> set ready\<close> have in': "(k0, r0\<lparr>can_read := True\<rparr>) \<in> set ?h'"
      by (force simp: h')
    from pick_loop_max[OF res0_def[symmetric]]
    show ?thesis
    proof (elim disjE conjE exE)
      assume "\<forall>(k, r) \<in> set ?h'. can_read r \<longrightarrow> replica.next_packet_number r \<le> - 1"
      with in' have "replica.next_packet_number (r0\<lparr>can_read := True\<rparr>) \<le> - 1" by fastforce
      with nonneg[OF in'] show ?thesis by simp
    next
      fix k r
      assume k: "res0 = Some k" "(k, r) \<in> set ?h'" "can_read r"
        and mx: "\<forall>(k', r') \<in> set ?h'. can_read r' \<longrightarrow>
                  replica.next_packet_number r' \<le> replica.next_packet_number r"
      from k(1) res have "res = Inr k" "s' = s1" by simp_all
      moreover from dist' k(2) have "map_of ?h' k = Some r" by simp
      moreover from valid[OF k(2,3)] have "is_valid r" .
      ultimately show ?thesis using k(3) mx same by auto
    qed
  qed
qed


lemma pickConnection_valid:
  assumes "wf_system s" and "pickConnection s = (Inr k, s')"
  shows "\<exists>r. map_of (replica_hash s) k = Some r \<and> is_valid r"
proof -
  from pickConnection_post[OF assms] obtain r' where
    same: "map (\<lambda>(k, r). (k, r\<lparr>can_read := False\<rparr>)) (replica_hash s') =
           map (\<lambda>(k, r). (k, r\<lparr>can_read := False\<rparr>)) (replica_hash s)"
    and r': "map_of (replica_hash s') k = Some r'" "is_valid r'"
    by auto
  from same have "map_of (map (\<lambda>(k, r). (k, r\<lparr>can_read := False\<rparr>)) (replica_hash s')) k =
                  map_of (map (\<lambda>(k, r). (k, r\<lparr>can_read := False\<rparr>)) (replica_hash s)) k"
    by simp
  with r'(1) obtain r where "map_of (replica_hash s) k = Some r"
    "r\<lparr>can_read := False\<rparr> = r'\<lparr>can_read := False\<rparr>"
    by (cases "map_of (replica_hash s) k") (auto simp: map_of_map)
  moreover from this(2) have "is_valid r = is_valid r'"
    by (metis replica.select_convs(2) replica.surjective replica.update_convs(3))
  ultimately show ?thesis using r'(2) by simp
qed





section \<open>The receive loop, one packet at a time\<close>

lemma receive_loop_invalid:
  "map_of (replica_hash s) k = Some r \<Longrightarrow> \<not> is_valid r \<Longrightarrow> receive_loop k s = (Inr None, s)"
  by (subst receive_loop.simps) simp

lemma receive_loop_absent:
  "map_of (replica_hash s) k = None \<Longrightarrow> receive_loop k s = (Inr None, s)"
  by (subst receive_loop.simps) simp

lemma receive_loop_exhausted:
  "map_of (replica_hash s) k = Some r \<Longrightarrow> is_valid r \<Longrightarrow> incoming s (connection r) = [] \<Longrightarrow>
   receive_loop k s = (Inl NETWORK_ERROR, s)"
  by (subst receive_loop.simps) (simp add: connection_receivePacket_def)

lemma classify_streamable:
  "streamable (ptype p) \<Longrightarrow> classify k p s = (Inr False, s)"
  by (cases "ptype p") (simp_all add: classify_def)

lemma classify_terminal:
  "ptype p = EndOfStream \<or> ptype p = Exception \<Longrightarrow>
   classify k p s =
     (case drainResidualPackets (sendCancel (invalidate k s)) of
        (Inl e, s1) \<Rightarrow> (Inl e, s1)
      | (Inr _, s1) \<Rightarrow> (Inr False, s1))"
  by (auto simp add: classify_def)

lemma classify_other:
  "ptype p = Other n \<Longrightarrow>
   classify k p s = (Inr (valid_replicas_count s - 1 > 0), invalidate k s)"
  by (simp add: classify_def invalidate_def Let_def)

lemma receive_loop_streamable:
  assumes "map_of (replica_hash s) k = Some r" "is_valid r"
    and "incoming s (connection r) = p # ps" "streamable (ptype p)"
  shows "receive_loop k s =
     (let s1 = s\<lparr>incoming := (incoming s)(connection r := ps)\<rparr>
      in if replica.next_packet_number r = system.next_packet_number s
         then (Inr (Some p),
               (increment_replica k s1)\<lparr>system.next_packet_number := system.next_packet_number s + 1\<rparr>)
         else receive_loop k (increment_replica k s1))"
  using assms
  by (subst receive_loop.simps)
     (simp add: connection_receivePacket_def classify_streamable Let_def)

lemma map_of_invalidate [simp]:
  "map_of (replica_hash (invalidate k s)) j =
     (if j = k then map_option (\<lambda>r. r\<lparr>is_valid := False\<rparr>) (map_of (replica_hash s) k)
      else map_of (replica_hash s) j)"
  by (simp add: invalidate_def)

lemma invalidate_fields [simp]:
  "incoming (invalidate k s) = incoming s"
  "polls (invalidate k s) = polls s"
  "calls (invalidate k s) = calls s"
  "sockfd_of (invalidate k s) = sockfd_of s"
  "server_address (invalidate k s) = server_address s"
  "valid_replicas_count (invalidate k s) = valid_replicas_count s - 1"
  "system.next_packet_number (invalidate k s) = system.next_packet_number s"
  by (simp_all add: invalidate_def)

lemma receive_loop_other:
  assumes "map_of (replica_hash s) k = Some r" "is_valid r"
    and "incoming s (connection r) = p # ps" "ptype p = Other n"
  shows "receive_loop k s =
     (let s2 = invalidate k (s\<lparr>incoming := (incoming s)(connection r := ps)\<rparr>)
      in if replica.next_packet_number r = system.next_packet_number s \<and>
            \<not> valid_replicas_count s - 1 > 0
         then (Inr (Some p),
               (increment_replica k s2)\<lparr>system.next_packet_number := system.next_packet_number s + 1\<rparr>)
         else (Inr None, increment_replica k s2))"
proof -
  let ?s1 = "s\<lparr>incoming := (incoming s)(connection r := ps)\<rparr>"
  have "receive_loop k (increment_replica k (invalidate k ?s1)) =
          (Inr None, increment_replica k (invalidate k ?s1))"
    using assms(1) by (intro receive_loop_invalid[where r = "r\<lparr>is_valid := False,
      replica.next_packet_number := replica.next_packet_number r + 1\<rparr>"]) simp_all
  with assms show ?thesis
    by (subst receive_loop.simps)
       (simp add: connection_receivePacket_def classify_other[OF assms(4)] Let_def)
qed



lemma filter_valid_invalidated:
  "filter (\<lambda>(k', r). is_valid r)
     (map (\<lambda>(k', r). if k' = k then (k', r\<lparr>is_valid := False\<rparr>) else (k', r)) h) =
   filter (\<lambda>(k', r). k' \<noteq> k) (filter (\<lambda>(k', r). is_valid r) h)"
  by (induction h) auto

lemma filter_valid_incremented:
  "filter (\<lambda>(k', r). is_valid r)
     (map (\<lambda>(k', r). if k' = k
        then (k', r\<lparr>replica.next_packet_number := replica.next_packet_number r + 1\<rparr>)
        else (k', r)) h) =
   map (\<lambda>(k', r). if k' = k
        then (k', r\<lparr>replica.next_packet_number := replica.next_packet_number r + 1\<rparr>)
        else (k', r)) (filter (\<lambda>(k', r). is_valid r) h)"
  by (induction h) (auto split: if_splits)

lemma valid_replicas_invalidate:
  "valid_replicas (invalidate k s) = filter (\<lambda>(k', r). k' \<noteq> k) (valid_replicas s)"
  by (simp add: valid_replicas_def invalidate_def modify_replica_def filter_valid_invalidated)

lemma length_valid_split:
  "distinct (map fst h) \<Longrightarrow> map_of h k = Some r \<Longrightarrow> is_valid r \<Longrightarrow>
   length (filter (\<lambda>(k', r). is_valid r) h) =
     Suc (length (filter (\<lambda>(k', r). k' \<noteq> k) (filter (\<lambda>(k', r). is_valid r) h)))"
proof (induction h)
  case Nil
  then show ?case by simp
next
  case (Cons e h)
  obtain k0 r0 where e: "e = (k0, r0)" by (cases e)
  show ?case
  proof (cases "k0 = k")
    case True
    with Cons.prems e have "r0 = r" and notin: "k \<notin> fst ` set h" by auto
    then have "filter (\<lambda>(k', r). k' \<noteq> k) (filter (\<lambda>(k', r). is_valid r) h) =
               filter (\<lambda>(k', r). is_valid r) h"
      by (intro filter_True) force
    with True e \<open>r0 = r\<close> Cons.prems(3) show ?thesis by simp
  next
    case False
    with Cons e show ?thesis by auto
  qed
qed

lemma valid_count_invalidate:
  assumes "wf_system s" "map_of (replica_hash s) k = Some r" "is_valid r"
  shows "valid_count (replica_hash (invalidate k s)) = valid_count (replica_hash s) - 1"
proof -
  from assms have "length (filter (\<lambda>(k', r). is_valid r) (replica_hash s)) =
     Suc (length (filter (\<lambda>(k', r). k' \<noteq> k) (filter (\<lambda>(k', r). is_valid r) (replica_hash s))))"
    by (intro length_valid_split) (simp_all add: wf_system_def)
  then show ?thesis
    by (simp add: valid_count_def invalidate_def modify_replica_def filter_valid_invalidated)
qed

lemma others_remain:
  assumes "wf_system s" "map_of (replica_hash s) k = Some r" "is_valid r"
  shows "(valid_replicas_count s - 1 > 0) = (filter (\<lambda>(k', r). k' \<noteq> k) (valid_replicas s) \<noteq> [])"
proof -
  from assms have "length (filter (\<lambda>(k', r). is_valid r) (replica_hash s)) =
     Suc (length (filter (\<lambda>(k', r). k' \<noteq> k) (filter (\<lambda>(k', r). is_valid r) (replica_hash s))))"
    by (intro length_valid_split) (simp_all add: wf_system_def)
  with assms(1) show ?thesis
    by (simp add: wf_system_def valid_count_def valid_replicas_def)
qed

lemma list_all_modify:
  "list_all (\<lambda>(k', r). Q k' r) h \<Longrightarrow> (\<And>r. Q k r \<Longrightarrow> Q k (f r)) \<Longrightarrow>
   list_all (\<lambda>(k', r). Q k' r) (map (\<lambda>(k', r). if k' = k then (k', f r) else (k', r)) h)"
  by (induction h) (auto split: if_splits)

lemma wf_system_invalidate:
  assumes "wf_system s" "map_of (replica_hash s) k = Some r" "is_valid r"
  shows "wf_system (invalidate k s)"
proof -
  have "list_all (\<lambda>(k, r). sockfd_of s (connection r) = k \<and> 0 \<le> replica.next_packet_number r)
          (replica_hash (invalidate k s))"
    using assms(1) unfolding wf_system_def invalidate_def modify_replica_def
    by (auto intro!: list_all_modify)
  moreover have "map fst (replica_hash (invalidate k s)) = map fst (replica_hash s)"
    by (simp add: invalidate_def)
  ultimately show ?thesis
    using assms(1) valid_count_invalidate[OF assms]
    by (simp add: wf_system_def)
qed

lemma wf_system_increment:
  assumes "wf_system s"
  shows "wf_system (increment_replica k s)"
proof -
  have "list_all (\<lambda>(k, r). sockfd_of s (connection r) = k \<and> 0 \<le> replica.next_packet_number r)
          (replica_hash (increment_replica k s))"
    using assms unfolding wf_system_def increment_replica_def modify_replica_def
    by (auto intro!: list_all_modify)
  moreover have "valid_count (replica_hash (increment_replica k s)) = valid_count (replica_hash s)"
    by (simp add: valid_count_def increment_replica_def modify_replica_def filter_valid_incremented)
  ultimately show ?thesis
    using assms by (simp add: wf_system_def increment_replica_def)
qed

lemma wf_system_world [simp]:
  "wf_system (s\<lparr>incoming := i\<rparr>) = wf_system s"
  "wf_system (s\<lparr>polls := q\<rparr>) = wf_system s"
  "wf_system (s\<lparr>calls := c\<rparr>) = wf_system s"
  "wf_system (s\<lparr>system.next_packet_number := n\<rparr>) = wf_system s"
  by (simp_all add: wf_system_def)

lemma valid_replicas_world [simp]:
  "valid_replicas (s\<lparr>incoming := i\<rparr>) = valid_replicas s"
  "valid_replicas (s\<lparr>polls := q\<rparr>) = valid_replicas s"
  "valid_replicas (s\<lparr>calls := c\<rparr>) = valid_replicas s"
  "valid_replicas (s\<lparr>system.next_packet_number := n\<rparr>) = valid_replicas s"
  by (simp_all add: valid_replicas_def)

lemma valid_replicas_increment_other:
  "map_of (replica_hash s) k = Some r \<Longrightarrow> \<not> is_valid r \<Longrightarrow> distinct (map fst (replica_hash s)) \<Longrightarrow>
   valid_replicas (increment_replica k s) = valid_replicas s"
proof -
  assume a: "map_of (replica_hash s) k = Some r" "\<not> is_valid r" "distinct (map fst (replica_hash s))"
  have "map (\<lambda>(k', r). if k' = k
        then (k', r\<lparr>replica.next_packet_number := replica.next_packet_number r + 1\<rparr>)
        else (k', r)) (filter (\<lambda>(k', r). is_valid r) (replica_hash s)) =
        filter (\<lambda>(k', r). is_valid r) (replica_hash s)"
  proof (intro map_idI)
    fix x assume x: "x \<in> set (filter (\<lambda>(k', r). is_valid r) (replica_hash s))"
    obtain k' r' where kr: "x = (k', r')" by (cases x)
    with x have "(k', r') \<in> set (replica_hash s)" "is_valid r'" by auto
    with a have "k' \<noteq> k" by (metis map_of_is_SomeI option.inject)
    with kr show "(case x of (k', r) \<Rightarrow> if k' = k
        then (k', r\<lparr>replica.next_packet_number := replica.next_packet_number r + 1\<rparr>)
        else (k', r)) = x" by simp
  qed
  then show ?thesis
    by (simp add: valid_replicas_def increment_replica_def modify_replica_def filter_valid_incremented)
qed

section \<open>Unrecognized and terminal packets\<close>

text \<open>
  One pass of the inner loop over an unrecognized packet of the valid replica at \<open>k\<close>:
  what the switch answers, what the loop returns and the state it leaves.
\<close>

lemma unrecognized_packet_step:
  assumes wf: "wf_system s"
    and rep: "map_of (replica_hash s) k = Some r" and v: "is_valid r"
    and inc: "incoming s (connection r) = p # ps" and ty: "ptype p = Other n"
    and run: "receive_loop k s = (res, s')"
  shows "classify k p s =
           (Inr (filter (\<lambda>(k', r'). k' \<noteq> k) (valid_replicas s) \<noteq> []), invalidate k s) \<and>
         res = (if filter (\<lambda>(k', r'). k' \<noteq> k) (valid_replicas s) = [] \<and>
                   replica.next_packet_number r = system.next_packet_number s
                then Inr (Some p) else Inr None) \<and>
         map_of (replica_hash s') k =
           Some (r\<lparr>is_valid := False, replica.next_packet_number := replica.next_packet_number r + 1\<rparr>) \<and>
         valid_replicas s' = filter (\<lambda>(k', r'). k' \<noteq> k) (valid_replicas s) \<and>
         valid_replicas_count s' = valid_replicas_count s - 1 \<and>
         calls s' = calls s \<and>
         incoming s' = (incoming s)(connection r := ps) \<and>
         wf_system s' \<and>
         (\<forall>s''. pickConnection s' \<noteq> (Inr k, s''))"
proof -
  let ?others = "filter (\<lambda>(k', r'). k' \<noteq> k) (valid_replicas s)"
  let ?s1 = "s\<lparr>incoming := (incoming s)(connection r := ps)\<rparr>"
  let ?s2 = "invalidate k ?s1"
  let ?s3 = "increment_replica k ?s2"
  let ?r' = "r\<lparr>is_valid := False, replica.next_packet_number := replica.next_packet_number r + 1\<rparr>"
  have retry: "(valid_replicas_count s - 1 > 0) = (?others \<noteq> [])"
    by (rule others_remain[OF wf rep v])
  have cl: "classify k p s = (Inr (?others \<noteq> []), invalidate k s)"
    using retry by (simp add: classify_other[OF ty])
  have wf1: "wf_system ?s1" using wf by simp
  have rep1: "map_of (replica_hash ?s1) k = Some r" using rep by simp
  have wf2: "wf_system ?s2" by (rule wf_system_invalidate[OF wf1 rep1 v])
  have wf3: "wf_system ?s3" by (rule wf_system_increment[OF wf2])
  have look2: "map_of (replica_hash ?s2) k = Some (r\<lparr>is_valid := False\<rparr>)"
    using rep by simp
  have look3: "map_of (replica_hash ?s3) k = Some ?r'" using rep by simp
  have d2: "distinct (map fst (replica_hash ?s2))" using wf2 by (simp add: wf_system_def)
  have val3: "valid_replicas ?s3 = ?others"
    using valid_replicas_increment_other[OF look2 _ d2]
    by (simp add: valid_replicas_invalidate)
  from receive_loop_other[OF rep v inc ty] run retry
  have res: "res = (if ?others = [] \<and> replica.next_packet_number r = system.next_packet_number s
                then Inr (Some p) else Inr None)"
    and s': "s' = ?s3 \<or> s' = ?s3\<lparr>system.next_packet_number := system.next_packet_number s + 1\<rparr>"
    by (auto simp: Let_def split: if_splits)
  from s' look3 have look': "map_of (replica_hash s') k = Some ?r'" by auto
  from s' val3 have val': "valid_replicas s' = ?others" by auto
  from s' have cnt: "valid_replicas_count s' = valid_replicas_count s - 1" by auto
  from s' have calls: "calls s' = calls s" by auto
  from s' have incoming: "incoming s' = (incoming s)(connection r := ps)" by auto
  from s' wf3 have wf': "wf_system s'" by auto
  have nopick: "pickConnection s' \<noteq> (Inr k, s'')" for s''
  proof
    assume "pickConnection s' = (Inr k, s'')"
    from pickConnection_valid[OF wf' this] look' show False by simp
  qed
  from cl res look' val' cnt calls incoming wf' nopick show ?thesis by blast
qed


lemma wf_example_system: "wf_system example_system"
  by (simp add: wf_system_def example_system_eq example_world_def Replica_def valid_count_def)







lemma sendCancel_fields [simp]:
  "replica_hash (sendCancel s) = replica_hash s"
  "incoming (sendCancel s) = incoming s"
  "polls (sendCancel s) = polls s"
  "sockfd_of (sendCancel s) = sockfd_of s"
  "server_address (sendCancel s) = server_address s"
  "valid_replicas_count (sendCancel s) = valid_replicas_count s"
  "system.next_packet_number (sendCancel s) = system.next_packet_number s"
  "calls (sendCancel s) = calls s @ map (\<lambda>(k, r). SendCancel (connection r)) (valid_replicas s)"
  by (simp_all add: sendCancel_def valid_replicas_def)

lemma wf_system_sendCancel [simp]: "wf_system (sendCancel s) = wf_system s"
  by (simp add: wf_system_def)

lemma valid_replicas_sendCancel [simp]: "valid_replicas (sendCancel s) = valid_replicas s"
  by (simp add: valid_replicas_def)





section \<open>The receive loop as a whole\<close>

lemma receive_loop_unfold:
  assumes run: "receive_loop k s = (res, s')"
  obtains
    (exit) "res = Inr None" "s' = s"
      "map_of (replica_hash s) k = None \<or> (\<exists>r. map_of (replica_hash s) k = Some r \<and> \<not> is_valid r)"
  | (exhausted) r where "res = Inl NETWORK_ERROR" "s' = s"
      "map_of (replica_hash s) k = Some r" "is_valid r" "incoming s (connection r) = []"
  | (raised) r p ps e where "res = Inl e"
      "map_of (replica_hash s) k = Some r" "is_valid r" "incoming s (connection r) = p # ps"
      "classify k p (s\<lparr>incoming := (incoming s)(connection r := ps)\<rparr>) = (Inl e, s')"
  | (returned) r p ps s2 where "res = Inr (Some p)"
      "map_of (replica_hash s) k = Some r" "is_valid r" "incoming s (connection r) = p # ps"
      "classify k p (s\<lparr>incoming := (incoming s)(connection r := ps)\<rparr>) = (Inr False, s2)"
      "replica.next_packet_number r = system.next_packet_number s2"
      "s' = (increment_replica k s2)\<lparr>system.next_packet_number := system.next_packet_number s2 + 1\<rparr>"
  | (again) r p ps retry s2 where
      "map_of (replica_hash s) k = Some r" "is_valid r" "incoming s (connection r) = p # ps"
      "classify k p (s\<lparr>incoming := (incoming s)(connection r := ps)\<rparr>) = (Inr retry, s2)"
      "\<not> (replica.next_packet_number r = system.next_packet_number s2 \<and> \<not> retry)"
      "receive_loop k (increment_replica k s2) = (res, s')"
      "receive_measure (k, increment_replica k s2) < receive_measure (k, s)"
proof (cases "map_of (replica_hash s) k")
  case None
  with run have "res = Inr None" "s' = s" by (simp_all add: receive_loop_absent)
  with None show ?thesis by (intro exit) simp_all
next
  case (Some r)
  show ?thesis
  proof (cases "is_valid r")
    case False
    with run Some have "res = Inr None" "s' = s" by (simp_all add: receive_loop_invalid)
    with Some False show ?thesis by (intro exit) simp_all
  next
    case True
    show ?thesis
    proof (cases "incoming s (connection r)")
      case Nil
      with run Some True have "res = Inl NETWORK_ERROR" "s' = s"
        by (simp_all add: receive_loop_exhausted)
      with Some True Nil show ?thesis by (intro exhausted) simp_all
    next
      case (Cons p ps)
      let ?s1 = "s\<lparr>incoming := (incoming s)(connection r := ps)\<rparr>"
      have recv: "connection_receivePacket (connection r) s = (Inr p, ?s1)"
        using Cons by (simp add: connection_receivePacket_def)
      obtain y s2 where c: "classify k p ?s1 = (y, s2)" by (cases "classify k p ?s1")
      show ?thesis
      proof (cases y)
        case (Inl e)
        with run Some True recv c have "res = Inl e" "s' = s2"
          by (simp_all add: receive_loop.simps[of k s])
        with Some True Cons c Inl show ?thesis by (intro raised[of e r p ps]) simp_all
      next
        case (Inr retry)
        show ?thesis
        proof (cases "replica.next_packet_number r = system.next_packet_number s2 \<and> \<not> retry")
          case yes: True
          with run Some True recv c Inr have "res = Inr (Some p)"
            "s' = (increment_replica k s2)\<lparr>system.next_packet_number := system.next_packet_number s2 + 1\<rparr>"
            by (simp_all add: receive_loop.simps[of k s])
          with Some True Cons c Inr yes show ?thesis by (intro returned[of p r ps s2]) simp_all
        next
          case no: False
          with run Some True recv c Inr have "receive_loop k (increment_replica k s2) = (res, s')"
            by (simp add: receive_loop.simps[of k s])
          moreover have "receive_measure (k, increment_replica k s2) < receive_measure (k, s)"
            using Some True recv c Inr by (intro receive_measure_decreases[of s k r p ?s1 retry]) simp_all
          ultimately show ?thesis using Some True Cons c Inr no
            by (intro again[of r p ps retry s2]) simp_all
        qed
      qed
    qed
  qed
qed


lemma classify_lookup:
  assumes "classify k p s = (res, s')" "map_of (replica_hash s) k = Some r"
  shows "\<exists>r'. map_of (replica_hash s') k = Some r' \<and>
              replica.next_packet_number r' = replica.next_packet_number r"
  using classify_frame[OF assms(1)] assms(2)
  by (cases "streamable (ptype p)") simp_all

lemma receive_loop_cursor:
  "receive_loop k s = (res, s') \<Longrightarrow>
   system.next_packet_number s' =
     system.next_packet_number s + (if \<exists>p. res = Inr (Some p) then 1 else 0)"
proof (induction "receive_measure (k, s)" arbitrary: s rule: less_induct)
  case less
  from less.prems show ?case
  proof (cases rule: receive_loop_unfold)
    case exit
    then show ?thesis by simp
  next
    case (exhausted r)
    then show ?thesis by simp
  next
    case (raised r p ps e)
    from classify_frame[OF raised(5)] raised(1) show ?thesis by simp
  next
    case (returned r p ps s2)
    from classify_frame[OF returned(5)] returned(1,7) show ?thesis by simp
  next
    case (again r p ps retry s2)
    from less.hyps[OF again(7,6)] classify_frame[OF again(4)] show ?thesis by simp
  qed
qed

lemma receive_loop_returned:
  "receive_loop k s = (Inr (Some p), s') \<Longrightarrow>
   (\<exists>r'. map_of (replica_hash s') k = Some r' \<and>
         replica.next_packet_number r' = system.next_packet_number s') \<and>
   (\<forall>n. ptype p = Other n \<longrightarrow> valid_replicas_count s' \<le> 0)"
proof (induction "receive_measure (k, s)" arbitrary: s rule: less_induct)
  case less
  from less.prems show ?case
  proof (cases rule: receive_loop_unfold)
    case exit
    then show ?thesis by simp
  next
    case (exhausted r)
    then show ?thesis by simp
  next
    case (raised r p ps e)
    then show ?thesis by simp
  next
    case (returned r q ps s2)
    let ?s1 = "s\<lparr>incoming := (incoming s)(connection r := ps)\<rparr>"
    from returned(1) have pq: "q = p" by simp
    from returned(2) have "map_of (replica_hash ?s1) k = Some r" by simp
    from classify_lookup[OF returned(5) this] obtain r2 where
      r2: "map_of (replica_hash s2) k = Some r2"
        "replica.next_packet_number r2 = replica.next_packet_number r"
      by blast
    with returned(6,7) have A: "\<exists>r'. map_of (replica_hash s') k = Some r' \<and>
         replica.next_packet_number r' = system.next_packet_number s'"
      by simp
    have B: "valid_replicas_count s' \<le> 0" if "ptype p = Other n" for n
    proof -
      from classify_other[OF that[folded pq], of k ?s1] returned(5)
      have "\<not> valid_replicas_count ?s1 - 1 > 0" "s2 = invalidate k ?s1" by simp_all
      with returned(7) show ?thesis by simp
    qed
    from A B show ?thesis by blast
  next
    case (again r p ps retry s2)
    from less.hyps[OF again(7,6)] show ?thesis .
  qed
qed


lemma replica_le_refl [simp]: "replica_le r r"
  by (simp add: replica_le_def)

lemma replica_le_trans: "replica_le a b \<Longrightarrow> replica_le b c \<Longrightarrow> replica_le a c"
  by (auto simp: replica_le_def)

lemma evolves_refl [simp]: "evolves s s"
  by (auto simp: evolves_def intro!: list.rel_refl)

lemma evolves_trans:
  assumes "evolves a b" "evolves b c"
  shows "evolves a c"
proof -
  let ?R = "\<lambda>(k, r) (k', r'). k' = k \<and> replica_le r r'"
  have "?R x z" if "?R x y" "?R y z" for x y z
    using that by (auto intro: replica_le_trans)
  moreover from assms have "list_all2 ?R (replica_hash a) (replica_hash b)"
    "list_all2 ?R (replica_hash b) (replica_hash c)"
    by (simp_all add: evolves_def)
  ultimately have "list_all2 ?R (replica_hash a) (replica_hash c)"
    by (rule list_all2_trans)
  with assms show ?thesis by (simp add: evolves_def)
qed

lemma step_ok_refl [simp]: "step_ok s s"
  by (simp add: step_ok_def)

lemma step_ok_trans: "step_ok a b \<Longrightarrow> step_ok b c \<Longrightarrow> step_ok a c"
  by (auto simp: step_ok_def intro: evolves_trans)

lemma evolves_same_hash:
  "replica_hash s' = replica_hash s \<Longrightarrow> sockfd_of s' = sockfd_of s \<Longrightarrow>
   server_address s' = server_address s \<Longrightarrow> evolves s s'"
  by (auto simp: evolves_def intro!: list.rel_refl)

lemma evolves_modify:
  "(\<And>r. replica_le r (f r)) \<Longrightarrow> evolves s (modify_replica k f s)"
  by (auto simp: evolves_def modify_replica_def list_all2_map2 intro!: list.rel_refl split: if_splits)

lemma step_ok_world [simp]:
  "step_ok s (s\<lparr>incoming := i\<rparr>)"
  "step_ok s (s\<lparr>polls := q\<rparr>)"
  "step_ok s (s\<lparr>calls := c\<rparr>)"
  "step_ok s (s\<lparr>system.next_packet_number := n\<rparr>)"
  by (simp_all add: step_ok_def evolves_same_hash)

lemma step_ok_invalidate:
  "map_of (replica_hash s) k = Some r \<Longrightarrow> is_valid r \<Longrightarrow> step_ok s (invalidate k s)"
proof -
  assume a: "map_of (replica_hash s) k = Some r" "is_valid r"
  have "evolves s (modify_replica k (\<lambda>r. r\<lparr>is_valid := False\<rparr>) s)"
    by (rule evolves_modify) (simp add: replica_le_def)
  then have "evolves s (invalidate k s)"
    by (simp add: evolves_def invalidate_def)
  with a show ?thesis
    by (simp add: step_ok_def wf_system_invalidate)
qed

lemma step_ok_increment: "step_ok s (increment_replica k s)"
proof -
  have "evolves s (increment_replica k s)"
    unfolding increment_replica_def by (rule evolves_modify) (simp add: replica_le_def)
  then show ?thesis by (simp add: step_ok_def wf_system_increment)
qed

lemma step_ok_sendCancel: "step_ok s (sendCancel s)"
  by (simp add: sendCancel_def)

lemma step_ok_drainResidualPackets:
  "drainResidualPackets s = (res, s') \<Longrightarrow> step_ok s s'"
  by (auto dest!: drainResidualPackets_frame)

lemma step_ok_classify:
  assumes "classify k p s = (res, s')" "map_of (replica_hash s) k = Some r" "is_valid r"
  shows "step_ok s s'"
proof (cases "streamable (ptype p)")
  case True
  with assms(1) show ?thesis by (simp add: classify_streamable)
next
  case False
  show ?thesis
  proof (cases "\<exists>n. ptype p = Other n")
    case True
    then obtain n where "ptype p = Other n" by blast
    from classify_other[OF this, of k s] assms(1) have "s' = invalidate k s" by simp
    with assms(2,3) show ?thesis by (simp add: step_ok_invalidate)
  next
    case other: False
    with False have ty: "ptype p = EndOfStream \<or> ptype p = Exception"
      by (cases "ptype p") simp_all
    obtain res2 s2 where d: "drainResidualPackets (sendCancel (invalidate k s)) = (res2, s2)"
      by (cases "drainResidualPackets (sendCancel (invalidate k s))")
    with classify_terminal[OF ty, of k s] assms(1) have "s' = s2"
      by (auto split: sum.splits)
    moreover have "step_ok s (invalidate k s)" by (rule step_ok_invalidate[OF assms(2,3)])
    moreover have "step_ok (invalidate k s) (sendCancel (invalidate k s))" by (rule step_ok_sendCancel)
    moreover have "step_ok (sendCancel (invalidate k s)) s2" by (rule step_ok_drainResidualPackets[OF d])
    ultimately show ?thesis by (blast intro: step_ok_trans)
  qed
qed

lemma step_ok_receive_loop:
  "receive_loop k s = (res, s') \<Longrightarrow> step_ok s s'"
proof (induction "receive_measure (k, s)" arbitrary: s rule: less_induct)
  case less
  from less.prems show ?case
  proof (cases rule: receive_loop_unfold)
    case exit
    then show ?thesis by simp
  next
    case (exhausted r)
    then show ?thesis by simp
  next
    case (raised r p ps e)
    let ?s1 = "s\<lparr>incoming := (incoming s)(connection r := ps)\<rparr>"
    have "step_ok s ?s1" by simp
    moreover from raised have "step_ok ?s1 s'" by (intro step_ok_classify[OF raised(5)]) simp_all
    ultimately show ?thesis by (rule step_ok_trans)
  next
    case (returned r p ps s2)
    let ?s1 = "s\<lparr>incoming := (incoming s)(connection r := ps)\<rparr>"
    have "step_ok s ?s1" by simp
    moreover from returned have "step_ok ?s1 s2" by (intro step_ok_classify[OF returned(5)]) simp_all
    moreover have "step_ok s2 (increment_replica k s2)" by (rule step_ok_increment)
    moreover from returned(7) have "step_ok (increment_replica k s2) s'" by simp
    ultimately show ?thesis by (blast intro: step_ok_trans)
  next
    case (again r p ps retry s2)
    let ?s1 = "s\<lparr>incoming := (incoming s)(connection r := ps)\<rparr>"
    have "step_ok s ?s1" by simp
    moreover from again have "step_ok ?s1 s2" by (intro step_ok_classify[OF again(4)]) simp_all
    moreover have "step_ok s2 (increment_replica k s2)" by (rule step_ok_increment)
    moreover from less.hyps[OF again(7,6)] have "step_ok (increment_replica k s2) s'" .
    ultimately show ?thesis by (blast intro: step_ok_trans)
  qed
qed


lemma map_reset_modify_can_read:
  "map (\<lambda>(k, r). (k, r\<lparr>can_read := False\<rparr>))
     (map (\<lambda>(k', r). if k' = fd then (k', r\<lparr>can_read := b\<rparr>) else (k', r)) h) =
   map (\<lambda>(k, r). (k, r\<lparr>can_read := False\<rparr>)) h"
  by (induction h) (auto split: if_splits)

lemma mark_can_read_frame:
  "mark_can_read fds s = (res, s') \<Longrightarrow>
   \<exists>h. s' = s\<lparr>replica_hash := h\<rparr> \<and>
       map (\<lambda>(k, r). (k, r\<lparr>can_read := False\<rparr>)) h =
       map (\<lambda>(k, r). (k, r\<lparr>can_read := False\<rparr>)) (replica_hash s)"
proof (induction fds arbitrary: s)
  case Nil
  then have "s' = s\<lparr>replica_hash := replica_hash s\<rparr>" by simp
  then show ?case by blast
next
  case (Cons fd fds)
  show ?case
  proof (cases "map_of (replica_hash s) fd")
    case None
    with Cons.prems have "s' = s\<lparr>replica_hash := replica_hash s\<rparr>" by simp
    then show ?thesis by blast
  next
    case (Some r)
    let ?s1 = "modify_replica fd (\<lambda>r. r\<lparr>can_read := True\<rparr>) s"
    from Some Cons.prems have "mark_can_read fds ?s1 = (res, s')" by simp
    from Cons.IH[OF this] obtain h where h: "s' = ?s1\<lparr>replica_hash := h\<rparr>"
      "map (\<lambda>(k, r). (k, r\<lparr>can_read := False\<rparr>)) h =
       map (\<lambda>(k, r). (k, r\<lparr>can_read := False\<rparr>)) (replica_hash ?s1)"
      by blast
    from h(1) have "s' = s\<lparr>replica_hash := h\<rparr>" by (simp add: modify_replica_def)
    moreover from h(2) have "map (\<lambda>(k, r). (k, r\<lparr>can_read := False\<rparr>)) h =
       map (\<lambda>(k, r). (k, r\<lparr>can_read := False\<rparr>)) (replica_hash s)"
      by (simp add: modify_replica_def map_reset_modify_can_read del: map_map)
    ultimately show ?thesis by blast
  qed
qed

lemma waitForReadEvent_frame:
  assumes "waitForReadEvent s = (res, s')"
  shows "\<exists>q h. s' = s\<lparr>polls := q, replica_hash := h\<rparr> \<and>
       map (\<lambda>(k, r). (k, r\<lparr>can_read := False\<rparr>)) h =
       map (\<lambda>(k, r). (k, r\<lparr>can_read := False\<rparr>)) (replica_hash s)"
proof (cases "valid_replicas_count s = 0")
  case True
  with assms have "s' = s\<lparr>polls := polls s, replica_hash := replica_hash s\<rparr>"
    by (simp add: waitForReadEvent_def)
  then show ?thesis by blast
next
  case False
  let ?read_list = "map (\<lambda>(k, r). sockfd_of s (connection r))
                          (filter (\<lambda>(k, r). is_valid r) (replica_hash s))"
  let ?s1 = "s\<lparr>replica_hash := map (\<lambda>(k, r). (k, r\<lparr>can_read := False\<rparr>)) (replica_hash s)\<rparr>"
  obtain ready s2 where sel: "select ?read_list ?s1 = (ready, s2)"
    by (cases "select ?read_list ?s1")
  have "\<exists>q. s2 = ?s1\<lparr>polls := q\<rparr>"
  proof (cases "polls s")
    case Nil
    with sel have "s2 = ?s1" by (simp add: select_def)
    then have "s2 = ?s1\<lparr>polls := polls s\<rparr>" by simp
    then show ?thesis by blast
  next
    case (Cons ready0 rest)
    with sel have "s2 = ?s1\<lparr>polls := rest\<rparr>" by (simp add: select_def)
    then show ?thesis by blast
  qed
  then obtain q where s2: "s2 = ?s1\<lparr>polls := q\<rparr>" by blast
  obtain res3 s3 where m: "mark_can_read ready s2 = (res3, s3)"
    by (cases "mark_can_read ready s2")
  from mark_can_read_frame[OF m] obtain h where h: "s3 = s2\<lparr>replica_hash := h\<rparr>"
    "map (\<lambda>(k, r). (k, r\<lparr>can_read := False\<rparr>)) h =
       map (\<lambda>(k, r). (k, r\<lparr>can_read := False\<rparr>)) (replica_hash s2)"
    by blast
  from assms False sel m have "s' = s3"
    by (auto simp: waitForReadEvent_def Let_def split: sum.splits)
  with h(1) s2 have "s' = s\<lparr>polls := q, replica_hash := h\<rparr>"
    by simp
  moreover from h(2) have "map (\<lambda>(k, r). (k, r\<lparr>can_read := False\<rparr>)) h =
       map (\<lambda>(k, r). (k, r\<lparr>can_read := False\<rparr>)) (replica_hash s)"
    by (simp add: s2 case_prod_beta)
  ultimately show ?thesis by blast
qed


lemma reset_eq_fields:
  assumes "r\<lparr>can_read := False\<rparr> = r'\<lparr>can_read := False\<rparr>"
  shows "connection r = connection r'" "is_valid r = is_valid r'"
    "replica.next_packet_number r = replica.next_packet_number r'"
proof -
  have "connection (r\<lparr>can_read := False\<rparr>) = connection (r'\<lparr>can_read := False\<rparr>)"
    "is_valid (r\<lparr>can_read := False\<rparr>) = is_valid (r'\<lparr>can_read := False\<rparr>)"
    "replica.next_packet_number (r\<lparr>can_read := False\<rparr>) =
       replica.next_packet_number (r'\<lparr>can_read := False\<rparr>)"
    by (simp_all only: assms)
  then show "connection r = connection r'" "is_valid r = is_valid r'"
    "replica.next_packet_number r = replica.next_packet_number r'"
    by simp_all
qed

lemma reset_invariant:
  "map fst (map (\<lambda>(k, r). (k, r\<lparr>can_read := False\<rparr>)) h) = map fst h"
  "valid_count (map (\<lambda>(k, r). (k, r\<lparr>can_read := False\<rparr>)) h) = valid_count h"
  "list_all (\<lambda>(k, r). f (connection r) = k \<and> 0 \<le> replica.next_packet_number r)
     (map (\<lambda>(k, r). (k, r\<lparr>can_read := False\<rparr>)) h) =
   list_all (\<lambda>(k, r). f (connection r) = k \<and> 0 \<le> replica.next_packet_number r) h"
  by (induction h) (simp_all add: valid_count_def case_prod_beta)

lemma step_ok_can_read:
  assumes eq: "map (\<lambda>(k, r). (k, r\<lparr>can_read := False\<rparr>)) h =
               map (\<lambda>(k, r). (k, r\<lparr>can_read := False\<rparr>)) (replica_hash s)"
  shows "step_ok s (s\<lparr>polls := q, replica_hash := h\<rparr>)"
proof -
  let ?reset = "\<lambda>(k, r). (k, r\<lparr>can_read := False\<rparr>)"
  have "list_all2 (=) (map ?reset (replica_hash s)) (map ?reset h)"
    by (simp add: eq list.rel_eq)
  then have "list_all2 (\<lambda>x y. ?reset x = ?reset y) (replica_hash s) h"
    by (simp add: list.rel_map)
  then have "list_all2 (\<lambda>(k, r) (k', r'). k' = k \<and> replica_le r r') (replica_hash s) h"
  proof (rule list_all2_mono)
    fix x y :: "sockfd \<times> replica"
    assume xy: "?reset x = ?reset y"
    obtain k r k' r' where kr: "x = (k, r)" "y = (k', r')" by (cases x, cases y)
    with xy have "k' = k" "r\<lparr>can_read := False\<rparr> = r'\<lparr>can_read := False\<rparr>" by simp_all
    with reset_eq_fields[OF this(2)] kr
    show "(case x of (k, r) \<Rightarrow> \<lambda>(k', r'). k' = k \<and> replica_le r r') y"
      by (simp add: replica_le_def)
  qed
  then have ev: "evolves s (s\<lparr>polls := q, replica_hash := h\<rparr>)"
    by (simp add: evolves_def)
  have "map fst h = map fst (replica_hash s)"
    using arg_cong[OF eq, of "map fst"] by (simp only: reset_invariant)
  moreover have "valid_count h = valid_count (replica_hash s)"
    using arg_cong[OF eq, of valid_count] by (simp only: reset_invariant)
  moreover have "list_all (\<lambda>(k, r). sockfd_of s (connection r) = k \<and> 0 \<le> replica.next_packet_number r) h =
     list_all (\<lambda>(k, r). sockfd_of s (connection r) = k \<and> 0 \<le> replica.next_packet_number r) (replica_hash s)"
    using arg_cong[OF eq, of "list_all (\<lambda>(k, r). sockfd_of s (connection r) = k \<and> 0 \<le> replica.next_packet_number r)"]
    by (simp only: reset_invariant)
  ultimately have "wf_system (s\<lparr>polls := q, replica_hash := h\<rparr>) = wf_system s"
    by (simp add: wf_system_def)
  with ev show ?thesis by (simp add: step_ok_def)
qed

lemma step_ok_waitForReadEvent:
  "waitForReadEvent s = (res, s') \<Longrightarrow> step_ok s s'"
  by (auto dest!: waitForReadEvent_frame intro: step_ok_can_read)

lemma step_ok_pickConnection:
  "pickConnection s = (res, s') \<Longrightarrow> step_ok s s'"
  by (auto simp: pickConnection_def split: prod.splits sum.splits option.splits
           dest: step_ok_waitForReadEvent)

lemma system_cursor_waitForReadEvent:
  "waitForReadEvent s = (res, s') \<Longrightarrow> system.next_packet_number s' = system.next_packet_number s"
  by (auto dest!: waitForReadEvent_frame)

lemma system_cursor_pickConnection:
  "pickConnection s = (res, s') \<Longrightarrow> system.next_packet_number s' = system.next_packet_number s"
  by (auto simp: pickConnection_def split: prod.splits sum.splits option.splits
           dest: system_cursor_waitForReadEvent)

lemma receivePacket_unfold:
  assumes run: "receivePacket s = (res, s')"
  obtains
    (no_replica) e where "res = Inl e" "pickConnection s = (Inl e, s')"
  | (raised) k s1 e where "res = Inl e" "pickConnection s = (Inr k, s1)"
      "receive_loop k s1 = (Inl e, s')"
  | (returned) k s1 p where "res = Inr p" "pickConnection s = (Inr k, s1)"
      "receive_loop k s1 = (Inr (Some p), s')"
  | (again) k s1 s2 where "pickConnection s = (Inr k, s1)"
      "receive_loop k s1 = (Inr None, s2)" "receivePacket s2 = (res, s')"
      "length (polls s2) < length (polls s)"
proof -
  obtain x s1 where p: "pickConnection s = (x, s1)" by (cases "pickConnection s")
  show ?thesis
  proof (cases x)
    case (Inl e)
    with run p have "res = Inl e" "s' = s1" by (simp_all add: receivePacket.simps[of s])
    with p Inl show ?thesis by (intro no_replica[of e]) simp_all
  next
    case (Inr k)
    obtain y s2 where l: "receive_loop k s1 = (y, s2)" by (cases "receive_loop k s1")
    show ?thesis
    proof (cases y)
      case (Inl e)
      with run p \<open>x = Inr k\<close> l have "res = Inl e" "s' = s2" by (simp_all add: receivePacket.simps[of s])
      with p \<open>x = Inr k\<close> l Inl show ?thesis by (intro raised[of e k s1]) simp_all
    next
      case inr: (Inr z)
      show ?thesis
      proof (cases z)
        case None
        with run p \<open>x = Inr k\<close> l inr have "receivePacket s2 = (res, s')"
          by (simp add: receivePacket.simps[of s])
        moreover from p \<open>x = Inr k\<close> have "length (polls s1) < length (polls s)"
          by (intro pickConnection_polls[of s k s1]) simp
        moreover from l have "polls s2 = polls s1" by (rule receive_loop_polls)
        ultimately show ?thesis using p \<open>x = Inr k\<close> l inr None
          by (intro again[of k s1 s2]) simp_all
      next
        case (Some pk)
        with run p \<open>x = Inr k\<close> l inr have "res = Inr pk" "s' = s2"
          by (simp_all add: receivePacket.simps[of s])
        with p \<open>x = Inr k\<close> l inr Some show ?thesis by (intro returned[of pk k s1]) simp_all
      qed
    qed
  qed
qed

lemma step_ok_receivePacket:
  "receivePacket s = (res, s') \<Longrightarrow> step_ok s s'"
proof (induction "length (polls s)" arbitrary: s rule: less_induct)
  case less
  from less.prems show ?case
  proof (cases rule: receivePacket_unfold)
    case (no_replica e)
    then show ?thesis by (auto dest: step_ok_pickConnection)
  next
    case (raised k s1 e)
    then show ?thesis by (blast intro: step_ok_trans step_ok_pickConnection step_ok_receive_loop)
  next
    case (returned k s1 p)
    then show ?thesis by (blast intro: step_ok_trans step_ok_pickConnection step_ok_receive_loop)
  next
    case (again k s1 s2)
    from less.hyps[OF again(4,3)] again(1,2) show ?thesis
      by (blast intro: step_ok_trans step_ok_pickConnection step_ok_receive_loop)
  qed
qed

lemma receivePacket_cursor:
  "receivePacket s = (res, s') \<Longrightarrow>
   system.next_packet_number s' =
     system.next_packet_number s + (case res of Inr p \<Rightarrow> 1 | Inl e \<Rightarrow> 0)"
proof (induction "length (polls s)" arbitrary: s rule: less_induct)
  case less
  from less.prems show ?case
  proof (cases rule: receivePacket_unfold)
    case (no_replica e)
    then show ?thesis by (auto dest: system_cursor_pickConnection)
  next
    case (raised k s1 e)
    with system_cursor_pickConnection[OF raised(2)] receive_loop_cursor[OF raised(3)]
    show ?thesis by simp
  next
    case (returned k s1 p)
    with system_cursor_pickConnection[OF returned(2)] receive_loop_cursor[OF returned(3)]
    show ?thesis by simp
  next
    case (again k s1 s2)
    from less.hyps[OF again(4,3)] system_cursor_pickConnection[OF again(1)]
      receive_loop_cursor[OF again(2)]
    show ?thesis by simp
  qed
qed

lemma receivePacket_returned:
  "receivePacket s = (Inr p, s') \<Longrightarrow>
   (\<exists>k r. map_of (replica_hash s') k = Some r \<and>
          replica.next_packet_number r = system.next_packet_number s') \<and>
   (\<forall>n. ptype p = Other n \<longrightarrow> valid_replicas_count s' \<le> 0)"
proof (induction "length (polls s)" arbitrary: s rule: less_induct)
  case less
  from less.prems show ?case
  proof (cases rule: receivePacket_unfold)
    case (no_replica e)
    then show ?thesis by simp
  next
    case (raised k s1 e)
    then show ?thesis by simp
  next
    case (returned k s1 q)
    with receive_loop_returned[of k s1 p s'] show ?thesis by auto
  next
    case (again k s1 s2)
    from less.hyps[OF again(4,3)] show ?thesis .
  qed
qed

section \<open>Reachable states\<close>

lemma fold_insert_replica:
  "distinct (map f entries) \<Longrightarrow> f ` set entries \<inter> fst ` set acc = {} \<Longrightarrow>
   fold (\<lambda>c h. insert_replica (f c, Replica c) h) entries acc =
     acc @ map (\<lambda>c. (f c, Replica c)) entries"
proof (induction entries arbitrary: acc)
  case Nil
  then show ?case by simp
next
  case (Cons c entries)
  from Cons.prems(2) have "map_of acc (f c) = None"
    by (auto simp: map_of_eq_None_iff)
  then have ins: "insert_replica (f c, Replica c) acc = acc @ [(f c, Replica c)]"
    by (simp add: insert_replica_def)
  from Cons.prems have "f ` set entries \<inter> fst ` set (acc @ [(f c, Replica c)]) = {}"
    by auto
  with Cons.prems(1) Cons.IH[of "acc @ [(f c, Replica c)]"] ins show ?case by simp
qed

lemma replica_hash_ReplicasConnections:
  "distinct (map (sockfd_of w) entries) \<Longrightarrow>
   replica_hash (ReplicasConnections entries w) = map (\<lambda>c. (sockfd_of w c, Replica c)) entries"
  by (simp add: ReplicasConnections_def fold_insert_replica)

lemma wf_system_ReplicasConnections:
  assumes "distinct (map (sockfd_of w) entries)"
  shows "wf_system (ReplicasConnections entries w)"
proof -
  have "map fst (map (\<lambda>c. (sockfd_of w c, Replica c)) entries) = map (sockfd_of w) entries"
    by simp
  moreover have "valid_count (map (\<lambda>c. (sockfd_of w c, Replica c)) entries) = int (length entries)"
    by (induction entries) (simp_all add: valid_count_def Replica_def)
  moreover have "list_all (\<lambda>(k, r). sockfd_of w (connection r) = k \<and> 0 \<le> replica.next_packet_number r)
     (map (\<lambda>c. (sockfd_of w c, Replica c)) entries)"
    by (induction entries) (simp_all add: Replica_def)
  moreover have "sockfd_of (ReplicasConnections entries w) = sockfd_of w"
    "valid_replicas_count (ReplicasConnections entries w) = int (length entries)"
    by (simp_all add: ReplicasConnections_def)
  ultimately show ?thesis
    using assms unfolding wf_system_def replica_hash_ReplicasConnections[OF assms]
    by (simp del: map_map list.map_comp)
qed

lemma step_ok_perform: "step_ok s (perform op s)"
proof (cases op)
  case Op_receivePacket
  then show ?thesis
    using step_ok_receivePacket[of s "fst (receivePacket s)" "snd (receivePacket s)"] by simp
next
  case (Op_sendQuery q i st se p)
  then show ?thesis by (simp add: sendQuery_def)
next
  case Op_disconnect
  then show ?thesis by (simp add: disconnect_def)
next
  case Op_sendCancel
  then show ?thesis by (simp add: step_ok_sendCancel)
next
  case (Op_sendExternalTablesData d)
  then show ?thesis by (simp add: sendExternalTablesData_def)
next
  case Op_dumpAddresses
  then show ?thesis by simp
next
  case Op_waitForReadEvent
  then show ?thesis
    using step_ok_waitForReadEvent[of s "fst (waitForReadEvent s)" "snd (waitForReadEvent s)"] by simp
next
  case Op_pickConnection
  then show ?thesis
    using step_ok_pickConnection[of s "fst (pickConnection s)" "snd (pickConnection s)"] by simp
next
  case Op_drainResidualPackets
  then show ?thesis
    using step_ok_drainResidualPackets[of s "fst (drainResidualPackets s)" "snd (drainResidualPackets s)"]
    by simp
next
  case (Op_world i q)
  have "step_ok s (s\<lparr>incoming := i\<rparr>)" by simp
  moreover have "step_ok (s\<lparr>incoming := i\<rparr>) (s\<lparr>incoming := i, polls := q\<rparr>)"
    using step_ok_world(2)[of "s\<lparr>incoming := i\<rparr>" q] by simp
  ultimately have "step_ok s (s\<lparr>incoming := i, polls := q\<rparr>)" by (rule step_ok_trans)
  with Op_world show ?thesis by simp
qed

lemma step_ok_run: "step_ok s (run ops s)"
proof (induction ops arbitrary: s)
  case Nil
  then show ?case by simp
next
  case (Cons op ops)
  from step_ok_perform[of s op] Cons[of "perform op s"] show ?case
    by (auto intro: step_ok_trans)
qed

text \<open>
  C6: in every state reached from the constructor, given connections with distinct
  sockets, by any operations, \<open>valid_replicas_count\<close> is the number of valid replicas;
  and whatever operations follow, every replica stays in the table under its key, with
  its connection, does not become valid again once invalid, and its
  \<open>next_packet_number\<close> does not decrease.
\<close>

theorem invariants_hold_in_every_reachable_state:
  assumes "distinct (map (sockfd_of w) entries)"
    and "s = run ops (ReplicasConnections entries w)"
  shows "valid_replicas_count s = valid_count (replica_hash s) \<and>
         distinct (map fst (replica_hash s)) \<and>
         list_all2
           (\<lambda>(k, r) (k', r'). k' = k \<and> connection r' = connection r \<and>
              (is_valid r' \<longrightarrow> is_valid r) \<and>
              replica.next_packet_number r \<le> replica.next_packet_number r')
           (replica_hash s) (replica_hash (run ops' s))"
proof -
  from wf_system_ReplicasConnections[OF assms(1)] step_ok_run[of "ReplicasConnections entries w" ops]
  have wf: "wf_system s" by (simp add: assms(2) step_ok_def)
  from step_ok_run[of s ops'] have "evolves s (run ops' s)" by (simp add: step_ok_def)
  with wf show ?thesis by (simp add: wf_system_def evolves_def replica_le_def)
qed

lemma cursor_perform:
  "system.next_packet_number (perform op s) = system.next_packet_number s + int (returned op s)"
proof (cases op)
  case Op_receivePacket
  then show ?thesis
    using receivePacket_cursor[of s "fst (receivePacket s)" "snd (receivePacket s)"]
    by (simp split: sum.splits)
next
  case (Op_sendQuery q i st se p)
  then show ?thesis by (simp add: sendQuery_def)
next
  case Op_disconnect
  then show ?thesis by (simp add: disconnect_def)
next
  case Op_sendCancel
  then show ?thesis by simp
next
  case (Op_sendExternalTablesData d)
  then show ?thesis by (simp add: sendExternalTablesData_def)
next
  case Op_dumpAddresses
  then show ?thesis by simp
next
  case Op_waitForReadEvent
  then show ?thesis
    using system_cursor_waitForReadEvent[of s "fst (waitForReadEvent s)" "snd (waitForReadEvent s)"]
    by simp
next
  case Op_pickConnection
  then show ?thesis
    using system_cursor_pickConnection[of s "fst (pickConnection s)" "snd (pickConnection s)"]
    by simp
next
  case Op_drainResidualPackets
  then show ?thesis
    using drainResidualPackets_frame[of s "fst (drainResidualPackets s)" "snd (drainResidualPackets s)"]
    by auto
next
  case (Op_world i q)
  then show ?thesis by simp
qed

lemma cursor_run:
  "system.next_packet_number (run ops s) = system.next_packet_number s + int (returned_count ops s)"
  by (induction ops arbitrary: s) (simp_all add: cursor_perform)

lemma example_run_count:
  "valid_replicas_count
     (run [Op_receivePacket, Op_receivePacket, Op_receivePacket, Op_receivePacket] example_system) = 2"
  by code_simp

theorem invariants_hold_in_every_reachable_state_witness:
  "distinct (map (sockfd_of example_world) [1, 2, 3]) \<and>
   valid_replicas_count
     (run [Op_receivePacket, Op_receivePacket, Op_receivePacket, Op_receivePacket] example_system) = 2 \<and>
   valid_count (replica_hash
     (run [Op_receivePacket, Op_receivePacket, Op_receivePacket, Op_receivePacket] example_system)) = 2 \<and>
   list_all2
     (\<lambda>(k, r) (k', r'). k' = k \<and> connection r' = connection r \<and>
        (is_valid r' \<longrightarrow> is_valid r) \<and>
        replica.next_packet_number r \<le> replica.next_packet_number r')
     (replica_hash
        (run [Op_receivePacket, Op_receivePacket, Op_receivePacket, Op_receivePacket] example_system))
     (replica_hash
        (run [Op_world (\<lambda>c. [mk_packet Data 5]) [[11, 13]], Op_receivePacket]
          (run [Op_receivePacket, Op_receivePacket, Op_receivePacket, Op_receivePacket] example_system)))"
proof -
  have d: "distinct (map (sockfd_of example_world) [1, 2, 3])"
    by (simp add: example_world_def)
  from invariants_hold_in_every_reachable_state[OF d refl,
      of "[Op_receivePacket, Op_receivePacket, Op_receivePacket, Op_receivePacket]"
         "[Op_world (\<lambda>c. [mk_packet Data 5]) [[11, 13]], Op_receivePacket]"]
    d example_run_count
  show ?thesis
    by (simp add: example_system_def)
qed


section \<open>The outer loop after an unrecognized packet\<close>

text \<open>
  What a poll finds in a well-formed system with a valid replica: the sockets of the
  valid replicas that the poll names. \<open>pickConnection\<close> returns a replica exactly when
  there is a poll left and it names the socket of a valid replica.
\<close>

lemma waitForReadEvent_ready:
  assumes wf: "wf_system s" and nz: "valid_replicas_count s \<noteq> 0"
  shows "waitForReadEvent s =
     (let ready = (case polls s of [] \<Rightarrow> []
                   | p # rest \<Rightarrow> filter (\<lambda>fd. fd \<in> set p) (map fst (valid_replicas s)))
      in (Inr (int (length ready)),
          s\<lparr>polls := tl (polls s),
            replica_hash := map (\<lambda>(k, r). (k, r\<lparr>can_read := k \<in> set ready\<rparr>)) (replica_hash s)\<rparr>))"
proof -
  let ?keys = "map fst (filter (\<lambda>(k, r). is_valid r) (replica_hash s))"
  let ?s1 = "s\<lparr>replica_hash := map (\<lambda>(k, r). (k, r\<lparr>can_read := False\<rparr>)) (replica_hash s)\<rparr>"
  define ready where "ready = (case polls s of [] \<Rightarrow> []
                   | p # rest \<Rightarrow> filter (\<lambda>fd. fd \<in> set p) ?keys)"
  from wf have "list_all (\<lambda>(k, r). sockfd_of s (connection r) = k \<and> 0 \<le> replica.next_packet_number r)
       (replica_hash s)"
    by (simp add: wf_system_def)
  then have rl: "map (\<lambda>(k, r). sockfd_of s (connection r)) (filter (\<lambda>(k, r). is_valid r) (replica_hash s)) = ?keys"
    by (rule read_list_keys)
  have sel: "select ?keys ?s1 = (ready, ?s1\<lparr>polls := tl (polls s)\<rparr>)"
    by (auto simp: ready_def select_def split: list.splits)
  have sub: "set ready \<subseteq> set ?keys"
    by (auto simp: ready_def split: list.splits)
  have "set ?keys \<subseteq> fst ` set (replica_hash s)"
    by auto
  with sub have sub2: "set ready \<subseteq> fst ` set (replica_hash (?s1\<lparr>polls := tl (polls s)\<rparr>))"
    by (simp add: fst_image_relabel)
  have "waitForReadEvent s =
          (case mark_can_read ready (?s1\<lparr>polls := tl (polls s)\<rparr>) of
             (Inl e, s3) \<Rightarrow> (Inl e, s3)
           | (Inr _, s3) \<Rightarrow> (Inr (int (length ready)), s3))"
    using nz by (simp add: waitForReadEvent_def rl sel Let_def)
  then have "waitForReadEvent s = (Inr (int (length ready)),
          s\<lparr>polls := tl (polls s),
            replica_hash := map (\<lambda>(k, r). (k, r\<lparr>can_read := k \<in> set ready\<rparr>)) (replica_hash s)\<rparr>)"
    by (simp add: mark_can_read_closed[OF sub2] map_reset_mark del: map_map)
  then show ?thesis
    unfolding Let_def ready_def valid_replicas_def .
qed

lemma pickConnection_succeeds_iff:
  assumes wf: "wf_system s"
  shows "(\<exists>k s'. pickConnection s = (Inr k, s')) \<longleftrightarrow>
         (\<exists>p rest. polls s = p # rest \<and> (\<exists>(k, r) \<in> set (valid_replicas s). k \<in> set p))"
proof (cases "valid_replicas_count s = 0")
  case True
  with wf have "valid_replicas s = []"
    by (simp add: wf_system_def valid_count_def valid_replicas_def)
  with True show ?thesis by (simp add: pickConnection_none_valid)
next
  case False
  define ready where "ready = (case polls s of [] \<Rightarrow> []
                   | p # rest \<Rightarrow> filter (\<lambda>fd. fd \<in> set p) (map fst (valid_replicas s)))"
  let ?s1 = "s\<lparr>polls := tl (polls s),
            replica_hash := map (\<lambda>(k, r). (k, r\<lparr>can_read := k \<in> set ready\<rparr>)) (replica_hash s)\<rparr>"
  have w: "waitForReadEvent s = (Inr (int (length ready)), ?s1)"
    using waitForReadEvent_ready[OF wf False] by (simp add: Let_def ready_def)
  have rhs: "(\<exists>p rest. polls s = p # rest \<and> (\<exists>(k, r) \<in> set (valid_replicas s). k \<in> set p)) \<longleftrightarrow>
             ready \<noteq> []"
    by (cases "polls s") (fastforce simp: ready_def filter_empty_conv)+
  obtain res s' where p: "pickConnection s = (res, s')" by (cases "pickConnection s")
  show ?thesis
  proof (cases "ready = []")
    case True
    with w p have "res = Inl NO_AVAILABLE_REPLICA" by (simp add: pickConnection_def)
    with p rhs True show ?thesis by simp
  next
    case nonempty: False
    from w p have s': "s' = ?s1"
      by (auto simp: pickConnection_def split: option.splits if_splits)
    from nonempty obtain k0 where k0: "k0 \<in> set ready" by (cases ready) auto
    then have "k0 \<in> fst ` set (valid_replicas s)"
      by (auto simp: ready_def split: list.splits)
    then obtain r0 where r0: "(k0, r0) \<in> set (replica_hash s)" "is_valid r0"
      by (auto simp: valid_replicas_def)
    with k0 have in': "(k0, r0\<lparr>can_read := True\<rparr>) \<in> set (replica_hash s')"
      by (force simp: s')
    have "\<exists>k. res = Inr k"
    proof (cases res)
      case (Inl e)
      with pickConnection_post[OF wf p]
      have "\<forall>(k', r') \<in> set (replica_hash s'). \<not> (can_read r' \<and> is_valid r')" by simp
      with in' r0(2) show ?thesis by fastforce
    next
      case (Inr k)
      then show ?thesis by blast
    qed
    with p rhs nonempty show ?thesis by auto
  qed
qed

text \<open>
  C4 as stated, that after an unrecognized packet a different replica is picked again
  whenever other valid replicas remain, fails: in \<open>unready_system\<close> the first replica
  sends an unrecognized packet and is invalidated, the second and the third stay valid
  and are counted, neither is readable in the next poll, and the call raises
  \<open>NO_AVAILABLE_REPLICA\<close> instead of picking one of them.
\<close>

theorem unrecognized_packet_repick_can_fail:
  "fst (receivePacket unready_system) = Inl NO_AVAILABLE_REPLICA \<and>
   map_option is_valid (map_of (replica_hash (snd (receivePacket unready_system))) 11) = Some False \<and>
   map_option is_valid (map_of (replica_hash (snd (receivePacket unready_system))) 12) = Some True \<and>
   map_option is_valid (map_of (replica_hash (snd (receivePacket unready_system))) 13) = Some True \<and>
   valid_replicas_count (snd (receivePacket unready_system)) = 2 \<and>
   incoming (snd (receivePacket unready_system)) 1 = [mk_packet Data 1] \<and>
   polls (snd (receivePacket unready_system)) = []"
  by code_simp

text \<open>
  C4, amended: when the replica at \<open>k\<close> is valid and the next packet of its connection
  has an unrecognized type, the switch sets the retry flag exactly when other valid
  replicas remain; the replica is invalid afterwards and its counter one higher, the other
  replicas are as valid as before, \<open>valid_replicas_count\<close> is one less, no call was
  issued (no cancel), only the one packet was consumed (no drain) and no poll. With other
  valid replicas remaining the inner loop returns nothing and the call that picked \<open>k\<close>
  continues as a call from the state left, that is with \<open>pickConnection\<close> again. That
  \<open>pickConnection\<close> never returns \<open>k\<close>; it returns another replica, one of the valid
  ones remaining, if and only if a poll is left and names the socket of one of them, the
  call then going on with the inner loop for that replica, and otherwise the call raises
  \<open>NO_AVAILABLE_REPLICA\<close>. With no other valid replica and
  the counters equal the packet itself is returned.
\<close>

theorem unrecognized_packet_invalidates_and_repolls:
  assumes wf: "wf_system s"
    and rep: "map_of (replica_hash s) k = Some r" and v: "is_valid r"
    and inc: "incoming s (connection r) = p # ps" and ty: "ptype p = Other n"
    and run: "receive_loop k s = (res, s')"
  shows "classify k p s =
           (Inr (filter (\<lambda>(k', r'). k' \<noteq> k) (valid_replicas s) \<noteq> []), invalidate k s) \<and>
         res = (if filter (\<lambda>(k', r'). k' \<noteq> k) (valid_replicas s) = [] \<and>
                   replica.next_packet_number r = system.next_packet_number s
                then Inr (Some p) else Inr None) \<and>
         map_of (replica_hash s') k =
           Some (r\<lparr>is_valid := False, replica.next_packet_number := replica.next_packet_number r + 1\<rparr>) \<and>
         valid_replicas s' = filter (\<lambda>(k', r'). k' \<noteq> k) (valid_replicas s) \<and>
         valid_replicas_count s' = valid_replicas_count s - 1 \<and>
         calls s' = calls s \<and>
         incoming s' = (incoming s)(connection r := ps) \<and>
         wf_system s' \<and>
         (\<forall>s''. pickConnection s' \<noteq> (Inr k, s'')) \<and>
         polls s' = polls s \<and>
         (\<forall>s0. pickConnection s0 = (Inr k, s) \<longrightarrow>
            receivePacket s0 = (if res = Inr None then receivePacket s' else (Inr p, s'))) \<and>
         ((\<exists>k' s''. pickConnection s' = (Inr k', s'')) \<longleftrightarrow>
            (\<exists>q rest. polls s' = q # rest \<and>
               (\<exists>(k', r') \<in> set (filter (\<lambda>(k', r'). k' \<noteq> k) (valid_replicas s)). k' \<in> set q))) \<and>
         (\<forall>k' s''. pickConnection s' = (Inr k', s'') \<longrightarrow>
            k' \<noteq> k \<and> k' \<in> fst ` set (filter (\<lambda>(k', r'). k' \<noteq> k) (valid_replicas s)) \<and>
            receivePacket s' =
              (case receive_loop k' s'' of
                 (Inl e, s2) \<Rightarrow> (Inl e, s2)
               | (Inr (Some q), s2) \<Rightarrow> (Inr q, s2)
               | (Inr None, s2) \<Rightarrow> receivePacket s2)) \<and>
         (\<forall>e s''. pickConnection s' = (Inl e, s'') \<longrightarrow>
            e = NO_AVAILABLE_REPLICA \<and> receivePacket s' = (Inl NO_AVAILABLE_REPLICA, s''))"
proof -
  let ?others = "filter (\<lambda>(k', r'). k' \<noteq> k) (valid_replicas s)"
  note step = unrecognized_packet_step[OF wf rep v inc ty run]
  from step have res: "res = (if ?others = [] \<and>
                   replica.next_packet_number r = system.next_packet_number s
                then Inr (Some p) else Inr None)"
    and look': "map_of (replica_hash s') k =
           Some (r\<lparr>is_valid := False, replica.next_packet_number := replica.next_packet_number r + 1\<rparr>)"
    and val': "valid_replicas s' = ?others" and wf': "wf_system s'"
    by blast+
  have outer: "receivePacket s0 = (if res = Inr None then receivePacket s' else (Inr p, s'))"
    if "pickConnection s0 = (Inr k, s)" for s0
    using that run res by (subst receivePacket.simps) (simp split: if_splits)
  have iff: "(\<exists>k' s''. pickConnection s' = (Inr k', s'')) \<longleftrightarrow>
            (\<exists>q rest. polls s' = q # rest \<and> (\<exists>(k', r') \<in> set ?others. k' \<in> set q))"
    using pickConnection_succeeds_iff[OF wf'] by (simp only: val')
  have other: "k' \<noteq> k \<and> k' \<in> fst ` set ?others \<and>
            receivePacket s' =
              (case receive_loop k' s'' of
                 (Inl e, s2) \<Rightarrow> (Inl e, s2)
               | (Inr (Some q), s2) \<Rightarrow> (Inr q, s2)
               | (Inr None, s2) \<Rightarrow> receivePacket s2)"
    if "pickConnection s' = (Inr k', s'')" for k' s''
  proof -
    have served: "receivePacket s' =
              (case receive_loop k' s'' of
                 (Inl e, s2) \<Rightarrow> (Inl e, s2)
               | (Inr (Some q), s2) \<Rightarrow> (Inr q, s2)
               | (Inr None, s2) \<Rightarrow> receivePacket s2)"
      using that by (subst receivePacket.simps) simp
    from pickConnection_valid[OF wf' that] obtain r' where
      r': "map_of (replica_hash s') k' = Some r'" "is_valid r'" by blast
    with look' have "k' \<noteq> k" by auto
    moreover from r' have "(k', r') \<in> set (valid_replicas s')"
      by (auto simp: valid_replicas_def dest: map_of_SomeD)
    ultimately have "k' \<noteq> k \<and> k' \<in> fst ` set ?others" unfolding val' by force
    with served show ?thesis by (intro conjI) blast+
  qed
  have fail: "e = NO_AVAILABLE_REPLICA \<and> receivePacket s' = (Inl NO_AVAILABLE_REPLICA, s'')"
    if "pickConnection s' = (Inl e, s'')" for e s''
  proof -
    from pickConnection_post[OF wf' that] have "e = NO_AVAILABLE_REPLICA" by simp
    with that show ?thesis by (subst receivePacket.simps) simp
  qed
  note polls = receive_loop_polls[OF run]
  from step polls outer iff other fail show ?thesis by blast
qed

lemma pickConnection_retry_system:
  "pickConnection retry_system = (Inr 11, retry_picked)"
  by (simp add: pickConnection_def waitForReadEvent_def select_def modify_replica_def Let_def
        retry_picked_def retry_system_def malformed_system_def example_system_eq example_world_def
        Replica_def)

lemma receivePacket_retry_system:
  "fst (receivePacket retry_system) = Inr (mk_packet Data 2)"
  by code_simp

theorem unrecognized_packet_invalidates_and_repolls_witness:
  "wf_system retry_picked \<and>
   pickConnection retry_system = (Inr 11, retry_picked) \<and>
   fst (receive_loop 11 retry_picked) = Inr None \<and>
   map_of (replica_hash (snd (receive_loop 11 retry_picked))) 11 =
     Some ((Replica 1)\<lparr>is_valid := False, can_read := True, replica.next_packet_number := 1\<rparr>) \<and>
   fst ` set (valid_replicas (snd (receive_loop 11 retry_picked))) = {12, 13} \<and>
   valid_replicas_count (snd (receive_loop 11 retry_picked)) = 2 \<and>
   calls (snd (receive_loop 11 retry_picked)) = [] \<and>
   incoming (snd (receive_loop 11 retry_picked)) 1 = [mk_packet Data 1] \<and>
   polls (snd (receive_loop 11 retry_picked)) = [[12]] \<and>
   receivePacket retry_system = receivePacket (snd (receive_loop 11 retry_picked)) \<and>
   (\<exists>k' s''. pickConnection (snd (receive_loop 11 retry_picked)) = (Inr k', s'')) \<and>
   fst (receivePacket retry_system) = Inr (mk_packet Data 2)"
proof -
  let ?r = "(Replica 1)\<lparr>can_read := True\<rparr>"
  have wf: "wf_system retry_picked"
    by (simp add: wf_system_def retry_picked_def retry_system_def malformed_system_def
          example_system_eq example_world_def Replica_def valid_count_def)
  have rep: "map_of (replica_hash retry_picked) 11 = Some ?r"
    by (simp add: retry_picked_def)
  have v: "is_valid ?r" by (simp add: Replica_def)
  have inc: "incoming retry_picked (connection ?r) = mk_packet (Other 99) 0 # [mk_packet Data 1]"
    by (simp add: retry_picked_def retry_system_def malformed_system_def Replica_def)
  have ty: "ptype (mk_packet (Other 99) 0) = Other 99" by (simp add: mk_packet_def)
  have run: "receive_loop 11 retry_picked =
               (fst (receive_loop 11 retry_picked), snd (receive_loop 11 retry_picked))"
    by simp
  have others: "filter (\<lambda>(k', r'). k' \<noteq> 11) (valid_replicas retry_picked) =
                  [(12, Replica 2), (13, Replica 3)]"
    by (simp add: valid_replicas_def retry_picked_def Replica_def)
  have polls: "polls retry_picked = [[12]]"
    by (simp add: retry_picked_def)
  note T = unrecognized_packet_invalidates_and_repolls[OF wf rep v inc ty run, unfolded others polls]
  from T have res: "fst (receive_loop 11 retry_picked) = Inr None" by simp
  from T have p': "polls (snd (receive_loop 11 retry_picked)) = [[12]]" by blast
  from T pickConnection_retry_system res
  have outer: "receivePacket retry_system = receivePacket (snd (receive_loop 11 retry_picked))"
    by simp
  from T have "(\<exists>k' s''. pickConnection (snd (receive_loop 11 retry_picked)) = (Inr k', s'')) \<longleftrightarrow>
            (\<exists>q rest. polls (snd (receive_loop 11 retry_picked)) = q # rest \<and>
               (\<exists>(k', r') \<in> set [(12, Replica 2), (13, Replica 3)]. k' \<in> set q))"
    by blast
  then have again: "\<exists>k' s''. pickConnection (snd (receive_loop 11 retry_picked)) = (Inr k', s'')"
    by (simp add: p')
  let ?s' = "snd (receive_loop 11 retry_picked)"
  from T have "map_of (replica_hash ?s') 11 =
      Some (?r\<lparr>is_valid := False, replica.next_packet_number := replica.next_packet_number ?r + 1\<rparr>)"
    by blast
  then have look: "map_of (replica_hash ?s') 11 =
      Some ((Replica 1)\<lparr>is_valid := False, can_read := True, replica.next_packet_number := 1\<rparr>)"
    by (simp add: Replica_def)
  from T have "valid_replicas ?s' = [(12, Replica 2), (13, Replica 3)]" by blast
  then have val: "fst ` set (valid_replicas ?s') = {12, 13}" by simp
  from T have "valid_replicas_count ?s' = valid_replicas_count retry_picked - 1" by blast
  then have cnt: "valid_replicas_count ?s' = 2"
    by (simp add: retry_picked_def retry_system_def malformed_system_def example_system_eq)
  from T have "calls ?s' = calls retry_picked" by blast
  then have calls: "calls ?s' = []"
    by (simp add: retry_picked_def retry_system_def malformed_system_def example_system_eq)
  from T have "incoming ?s' = (incoming retry_picked)(connection ?r := [mk_packet Data 1])" by blast
  then have inc': "incoming ?s' 1 = [mk_packet Data 1]" by (simp add: Replica_def)
  from wf pickConnection_retry_system res look val cnt calls inc' p' outer again
    receivePacket_retry_system
  show ?thesis by (intro conjI)
qed


section \<open>The ordering rule\<close>

text \<open>
  A call of \<open>receivePacket\<close> that returns a packet returns it from the success exit of
  the inner loop, entered for the replica that the last \<open>pickConnection\<close> returned.
\<close>

lemma inner_head_trans:
  "inner_head k b c \<Longrightarrow> inner_head k a b \<Longrightarrow> inner_head k a c"
  by (induction rule: inner_head.induct) (auto intro: inner_head.intros)

lemma outer_head_trans:
  "outer_head b c \<Longrightarrow> outer_head a b \<Longrightarrow> outer_head a c"
  by (induction rule: outer_head.induct) (auto intro: outer_head.intros)

lemma inner_head_cursor:
  "inner_head k s1 sa \<Longrightarrow> system.next_packet_number sa = system.next_packet_number s1"
proof (induction rule: inner_head.induct)
  case entered
  then show ?case by simp
next
  case (discarded sa r p sb retry s2)
  from discarded(4) have "system.next_packet_number sb = system.next_packet_number sa"
    by (auto simp: connection_receivePacket_def split: list.splits)
  with classify_frame[OF discarded(5)] discarded.IH show ?case by simp
qed

lemma outer_head_cursor:
  "outer_head s s0 \<Longrightarrow> system.next_packet_number s0 = system.next_packet_number s"
proof (induction rule: outer_head.induct)
  case called
  then show ?case by simp
next
  case (repicked s0 k s1 s2)
  with system_cursor_pickConnection[OF repicked(2)] receive_loop_cursor[OF repicked(3)]
  show ?case by simp
qed

lemma receive_loop_success_exit:
  "receive_loop k s1 = (Inr (Some p), s') \<Longrightarrow>
   \<exists>sa r sb s2. inner_head k s1 sa \<and> map_of (replica_hash sa) k = Some r \<and> is_valid r \<and>
      connection_receivePacket (connection r) sa = (Inr p, sb) \<and>
      classify k p sb = (Inr False, s2) \<and>
      replica.next_packet_number r = system.next_packet_number s2 \<and>
      s' = (increment_replica k s2)\<lparr>system.next_packet_number := system.next_packet_number s2 + 1\<rparr>"
proof (induction "receive_measure (k, s1)" arbitrary: s1 rule: less_induct)
  case less
  from less.prems show ?case
  proof (cases rule: receive_loop_unfold)
    case exit
    then show ?thesis by simp
  next
    case (exhausted r)
    then show ?thesis by simp
  next
    case (raised r p ps e)
    then show ?thesis by simp
  next
    case (returned r q ps s2)
    then have "connection_receivePacket (connection r) s1 =
        (Inr p, s1\<lparr>incoming := (incoming s1)(connection r := ps)\<rparr>)"
      by (simp add: connection_receivePacket_def)
    with returned inner_head.entered[of k s1] show ?thesis by blast
  next
    case (again r q ps retry s2)
    from less.hyps[OF again(7,6)] obtain sa ra sb sc where
      h: "inner_head k (increment_replica k s2) sa" and
      rest: "map_of (replica_hash sa) k = Some ra" "is_valid ra"
      "connection_receivePacket (connection ra) sa = (Inr p, sb)"
      "classify k p sb = (Inr False, sc)"
      "replica.next_packet_number ra = system.next_packet_number sc"
      "s' = (increment_replica k sc)\<lparr>system.next_packet_number := system.next_packet_number sc + 1\<rparr>"
      by blast
    from again have recv: "connection_receivePacket (connection r) s1 =
        (Inr q, s1\<lparr>incoming := (incoming s1)(connection r := ps)\<rparr>)"
      by (simp add: connection_receivePacket_def)
    have "inner_head k s1 (increment_replica k s2)"
      by (rule inner_head.discarded[OF inner_head.entered again(1,2) recv again(4,5)])
    from inner_head_trans[OF h this] rest show ?thesis by blast
  qed
qed

lemma receivePacket_success_exit:
  "receivePacket s = (Inr p, s') \<Longrightarrow>
   \<exists>s0 k s1. outer_head s s0 \<and> pickConnection s0 = (Inr k, s1) \<and>
      receive_loop k s1 = (Inr (Some p), s')"
proof (induction "length (polls s)" arbitrary: s rule: less_induct)
  case less
  from less.prems show ?case
  proof (cases rule: receivePacket_unfold)
    case (no_replica e)
    then show ?thesis by simp
  next
    case (raised k s1 e)
    then show ?thesis by simp
  next
    case (returned k s1 q)
    with outer_head.called[of s] show ?thesis by blast
  next
    case (again k s1 s2)
    from less.hyps[OF again(4,3)] obtain s0 k' s1' where
      h: "outer_head s2 s0" and rest: "pickConnection s0 = (Inr k', s1')"
        "receive_loop k' s1' = (Inr (Some p), s')"
      by blast
    have "outer_head s s2"
      by (rule outer_head.repicked[OF outer_head.called again(1,2)])
    from outer_head_trans[OF h this] rest show ?thesis by blast
  qed
qed

text \<open>
  C1: after any operations on a constructed coordinator, its \<open>next_packet_number\<close> is
  the number of calls of \<open>receivePacket\<close> that returned a packet. A call that returns
  the packet \<open>p\<close> has, at a head \<open>s0\<close> of its outer loop, picked the replica at
  \<open>k\<close> and, at a head \<open>sa\<close> of the inner loop for \<open>k\<close>, read \<open>p\<close> from the
  connection of that replica, valid there; the switch left no retry pending, and the
  counter of the replica was equal to the coordinator's, which is still the one the call
  started with. The state returned is the state after the switch with the counter of the
  replica and the coordinator's each incremented by exactly one. An unrecognized packet
  is returned only with no valid replica counted. A call that raises leaves the
  coordinator's counter as it was.
\<close>

theorem receivePacket_single_stream:
  "system.next_packet_number (run ops (ReplicasConnections entries w)) =
     int (returned_count ops (ReplicasConnections entries w)) \<and>
   (\<forall>s res s'. receivePacket s = (res, s') \<longrightarrow>
      (case res of
         Inr p \<Rightarrow>
           (\<exists>s0 k s1 sa r sb s2 r'.
              outer_head s s0 \<and> pickConnection s0 = (Inr k, s1) \<and> inner_head k s1 sa \<and>
              map_of (replica_hash sa) k = Some r \<and> is_valid r \<and>
              connection_receivePacket (connection r) sa = (Inr p, sb) \<and>
              classify k p sb = (Inr False, s2) \<and>
              replica.next_packet_number r = system.next_packet_number s2 \<and>
              system.next_packet_number s2 = system.next_packet_number s \<and>
              s' = (increment_replica k s2)
                     \<lparr>system.next_packet_number := system.next_packet_number s2 + 1\<rparr> \<and>
              map_of (replica_hash s') k = Some r' \<and>
              replica.next_packet_number r' = replica.next_packet_number r + 1) \<and>
           system.next_packet_number s' = system.next_packet_number s + 1 \<and>
           (\<forall>n. ptype p = Other n \<longrightarrow> valid_replicas_count s' \<le> 0)
       | Inl e \<Rightarrow> system.next_packet_number s' = system.next_packet_number s))"
proof -
  have "system.next_packet_number (ReplicasConnections entries w) = 0"
    by (simp add: ReplicasConnections_def initial_next_packet_number_def)
  then have A: "system.next_packet_number (run ops (ReplicasConnections entries w)) =
     int (returned_count ops (ReplicasConnections entries w))"
    by (simp add: cursor_run)
  have B: "\<exists>s0 k s1 sa r sb s2 r'.
              outer_head s s0 \<and> pickConnection s0 = (Inr k, s1) \<and> inner_head k s1 sa \<and>
              map_of (replica_hash sa) k = Some r \<and> is_valid r \<and>
              connection_receivePacket (connection r) sa = (Inr p, sb) \<and>
              classify k p sb = (Inr False, s2) \<and>
              replica.next_packet_number r = system.next_packet_number s2 \<and>
              system.next_packet_number s2 = system.next_packet_number s \<and>
              s' = (increment_replica k s2)
                     \<lparr>system.next_packet_number := system.next_packet_number s2 + 1\<rparr> \<and>
              map_of (replica_hash s') k = Some r' \<and>
              replica.next_packet_number r' = replica.next_packet_number r + 1"
    if run: "receivePacket s = (Inr p, s')" for s p s'
  proof -
    from receivePacket_success_exit[OF run] obtain s0 k s1 where
      o: "outer_head s s0" and pk: "pickConnection s0 = (Inr k, s1)"
      and l: "receive_loop k s1 = (Inr (Some p), s')"
      by blast
    from receive_loop_success_exit[OF l] obtain sa r sb s2 where
      i: "inner_head k s1 sa" and rep: "map_of (replica_hash sa) k = Some r" and v: "is_valid r"
      and recv: "connection_receivePacket (connection r) sa = (Inr p, sb)"
      and cl: "classify k p sb = (Inr False, s2)"
      and eq: "replica.next_packet_number r = system.next_packet_number s2"
      and s': "s' = (increment_replica k s2)
                     \<lparr>system.next_packet_number := system.next_packet_number s2 + 1\<rparr>"
      by blast
    from recv have sb: "system.next_packet_number sb = system.next_packet_number sa"
      "replica_hash sb = replica_hash sa"
      by (auto simp: connection_receivePacket_def split: list.splits)
    from classify_frame[OF cl] sb inner_head_cursor[OF i] system_cursor_pickConnection[OF pk]
      outer_head_cursor[OF o]
    have cur: "system.next_packet_number s2 = system.next_packet_number s" by simp
    from rep sb have "map_of (replica_hash sb) k = Some r" by simp
    from classify_lookup[OF cl this] obtain r2 where
      "map_of (replica_hash s2) k = Some r2"
      "replica.next_packet_number r2 = replica.next_packet_number r"
      by blast
    then have "map_of (replica_hash s') k =
        Some (r2\<lparr>replica.next_packet_number := replica.next_packet_number r2 + 1\<rparr>)"
      "replica.next_packet_number
         (r2\<lparr>replica.next_packet_number := replica.next_packet_number r2 + 1\<rparr>) =
       replica.next_packet_number r + 1"
      by (simp_all add: s')
    with o pk i rep v recv cl eq cur s' show ?thesis by blast
  qed
  have C: "case res of
         Inr p \<Rightarrow>
           (\<exists>s0 k s1 sa r sb s2 r'.
              outer_head s s0 \<and> pickConnection s0 = (Inr k, s1) \<and> inner_head k s1 sa \<and>
              map_of (replica_hash sa) k = Some r \<and> is_valid r \<and>
              connection_receivePacket (connection r) sa = (Inr p, sb) \<and>
              classify k p sb = (Inr False, s2) \<and>
              replica.next_packet_number r = system.next_packet_number s2 \<and>
              system.next_packet_number s2 = system.next_packet_number s \<and>
              s' = (increment_replica k s2)
                     \<lparr>system.next_packet_number := system.next_packet_number s2 + 1\<rparr> \<and>
              map_of (replica_hash s') k = Some r' \<and>
              replica.next_packet_number r' = replica.next_packet_number r + 1) \<and>
           system.next_packet_number s' = system.next_packet_number s + 1 \<and>
           (\<forall>n. ptype p = Other n \<longrightarrow> valid_replicas_count s' \<le> 0)
       | Inl e \<Rightarrow> system.next_packet_number s' = system.next_packet_number s"
    if run: "receivePacket s = (res, s')" for s res s'
  proof (cases res)
    case (Inl e)
    with receivePacket_cursor[OF run] show ?thesis by simp
  next
    case (Inr p)
    with receivePacket_cursor[OF run] receivePacket_returned[OF run[unfolded Inr]]
      B[OF run[unfolded Inr]]
    show ?thesis by simp
  qed
  from A C show ?thesis by blast
qed

lemma serial_returned_count:
  "returned_count [Op_receivePacket, Op_receivePacket, Op_sendCancel, Op_receivePacket, Op_receivePacket]
     serial_system = 3"
  by code_simp

lemma serial_first_packet:
  "fst (receivePacket serial_system) = Inr (mk_packet Data 1)"
  by code_simp

lemma serial_results:
  "fst (receive_many 4 serial_system) =
     [Inr (mk_packet Data 1), Inr (mk_packet Data 3), Inr (mk_packet EndOfStream 0),
      Inl NETWORK_ERROR]"
  by code_simp

theorem receivePacket_single_stream_witness:
  "returned_count [Op_receivePacket, Op_receivePacket, Op_sendCancel, Op_receivePacket, Op_receivePacket]
     serial_system = 3 \<and>
   system.next_packet_number
     (run [Op_receivePacket, Op_receivePacket, Op_sendCancel, Op_receivePacket, Op_receivePacket]
        serial_system) = 3 \<and>
   fst (receivePacket serial_system) = Inr (mk_packet Data 1) \<and>
   system.next_packet_number (snd (receivePacket serial_system)) = 1 \<and>
   (\<exists>s0 k s1 sa r sb s2 r'.
      outer_head serial_system s0 \<and> pickConnection s0 = (Inr k, s1) \<and> inner_head k s1 sa \<and>
      map_of (replica_hash sa) k = Some r \<and> is_valid r \<and>
      connection_receivePacket (connection r) sa = (Inr (mk_packet Data 1), sb) \<and>
      classify k (mk_packet Data 1) sb = (Inr False, s2) \<and>
      replica.next_packet_number r = system.next_packet_number s2 \<and>
      system.next_packet_number s2 = system.next_packet_number serial_system \<and>
      snd (receivePacket serial_system) =
        (increment_replica k s2)\<lparr>system.next_packet_number := system.next_packet_number s2 + 1\<rparr> \<and>
      map_of (replica_hash (snd (receivePacket serial_system))) k = Some r' \<and>
      replica.next_packet_number r' = replica.next_packet_number r + 1)"
proof -
  have run: "receivePacket serial_system =
               (fst (receivePacket serial_system), snd (receivePacket serial_system))"
    by simp
  have z: "system.next_packet_number serial_system = 0"
    by (simp add: serial_system_def ReplicasConnections_def initial_next_packet_number_def)
  note T = receivePacket_single_stream[of
      "[Op_receivePacket, Op_receivePacket, Op_sendCancel, Op_receivePacket, Op_receivePacket]"
      "[1, 2, 3]" "example_world\<lparr>polls := [[11], [12], [12], [13]]\<rparr>", folded serial_system_def]
  from T have "system.next_packet_number
     (run [Op_receivePacket, Op_receivePacket, Op_sendCancel, Op_receivePacket, Op_receivePacket]
        serial_system) =
     int (returned_count
       [Op_receivePacket, Op_receivePacket, Op_sendCancel, Op_receivePacket, Op_receivePacket]
       serial_system)"
    by (rule conjunct1)
  then have A: "system.next_packet_number
     (run [Op_receivePacket, Op_receivePacket, Op_sendCancel, Op_receivePacket, Op_receivePacket]
        serial_system) = 3"
    by (simp only: serial_returned_count)
  note B = T[THEN conjunct2, rule_format, OF run, unfolded serial_first_packet sum.case]
  from B have E: "\<exists>s0 k s1 sa r sb s2 r'.
      outer_head serial_system s0 \<and> pickConnection s0 = (Inr k, s1) \<and> inner_head k s1 sa \<and>
      map_of (replica_hash sa) k = Some r \<and> is_valid r \<and>
      connection_receivePacket (connection r) sa = (Inr (mk_packet Data 1), sb) \<and>
      classify k (mk_packet Data 1) sb = (Inr False, s2) \<and>
      replica.next_packet_number r = system.next_packet_number s2 \<and>
      system.next_packet_number s2 = system.next_packet_number serial_system \<and>
      snd (receivePacket serial_system) =
        (increment_replica k s2)\<lparr>system.next_packet_number := system.next_packet_number s2 + 1\<rparr> \<and>
      map_of (replica_hash (snd (receivePacket serial_system))) k = Some r' \<and>
      replica.next_packet_number r' = replica.next_packet_number r + 1"
    by (rule conjunct1)
  from B have "system.next_packet_number (snd (receivePacket serial_system)) =
      system.next_packet_number serial_system + 1"
    by (elim conjE)
  then have D: "system.next_packet_number (snd (receivePacket serial_system)) = 1"
    by (simp add: z)
  from serial_returned_count A serial_first_packet D E show ?thesis by (intro conjI)
qed

end
